theory Spec2Isabelle
  imports Main "HOL-Library.AList" "HOL-Library.Product_Lexorder"
begin

unbundle bit_operations_syntax

section \<open>Errors\<close>

text \<open>
  The notebook raises \<open>ValueError\<close> (negative exponent, point off the circle, subgroup
  size not dividing \<open>MOD + 1\<close>, transform length check), \<open>ZeroDivisionError\<close> (inverse of
  zero) and \<open>AssertionError\<close> (the \<open>assert\<close> of the decomposition). Python itself raises
  \<open>ValueError\<close> for a negative shift count and \<open>IndexError\<close> for a list index out of
  range. Each raise site is one constructor, so that a result tells which one fired.
\<close>

datatype error =
    ValueError_NegativeExponent
  | ValueError_NotOnCircle
  | ValueError_SubgroupSize
  | ValueError_Length
  | ValueError_NegativeShift
  | ZeroDivisionError
  | AssertionError
  | IndexError

fun map_err :: "('a \<Rightarrow> error + 'b) \<Rightarrow> 'a list \<Rightarrow> error + 'b list" where
  "map_err f [] = Inr []"
| "map_err f (a # as) =
     (case f a of
        Inl e \<Rightarrow> Inl e
      | Inr b \<Rightarrow> (case map_err f as of Inl e \<Rightarrow> Inl e | Inr bs \<Rightarrow> Inr (b # bs)))"

definition nth_err :: "'a list \<Rightarrow> nat \<Rightarrow> error + 'a" where
  "nth_err xs i = (if i < length xs then Inr (xs ! i) else Inl IndexError)"

definition shl1 :: "int \<Rightarrow> error + int" where
  "shl1 k = (if k < 0 then Inl ValueError_NegativeShift else Inr (push_bit (nat k) 1))"

section \<open>Finite field element class\<close>

definition MOD :: int where
  "MOD = 31"

datatype FieldElement = FE (val: int)

definition FieldElement_init :: "int \<Rightarrow> FieldElement" where
  "FieldElement_init v = FE (v mod MOD)"

definition fe_add :: "FieldElement \<Rightarrow> FieldElement \<Rightarrow> FieldElement" where
  "fe_add a b = FieldElement_init ((val a + val b) mod MOD)"

definition fe_sub :: "FieldElement \<Rightarrow> FieldElement \<Rightarrow> FieldElement" where
  "fe_sub a b = FieldElement_init ((val a - val b) mod MOD)"

definition fe_mul :: "FieldElement \<Rightarrow> FieldElement \<Rightarrow> FieldElement" where
  "fe_mul a b = FieldElement_init ((val a * val b) mod MOD)"

definition fe_neg :: "FieldElement \<Rightarrow> FieldElement" where
  "fe_neg a = FieldElement_init ((- val a) mod MOD)"

definition fe_eq :: "FieldElement \<Rightarrow> FieldElement \<Rightarrow> bool" where
  "fe_eq a b = (val a = val b)"

definition fe_inv :: "FieldElement \<Rightarrow> error + FieldElement" where
  "fe_inv a =
     (if val a = 0 then Inl ZeroDivisionError
      else Inr (FieldElement_init ((val a ^ nat (MOD - 2)) mod MOD)))"

definition fe_truediv :: "FieldElement \<Rightarrow> FieldElement \<Rightarrow> error + FieldElement" where
  "fe_truediv a b = (case fe_inv b of Inl e \<Rightarrow> Inl e | Inr i \<Rightarrow> Inr (fe_mul a i))"

definition fe_square :: "FieldElement \<Rightarrow> FieldElement" where
  "fe_square a = fe_mul a a"

definition fe_double :: "FieldElement \<Rightarrow> FieldElement" where
  "fe_double a = fe_add a a"

definition fe_one :: FieldElement where
  "fe_one = FieldElement_init 1"

definition fe_zero :: FieldElement where
  "fe_zero = FieldElement_init 0"

section \<open>Circle point class\<close>

datatype CirclePoint = CP (pt_x: FieldElement) (pt_y: FieldElement)

definition CirclePoint_init :: "FieldElement \<Rightarrow> FieldElement \<Rightarrow> error + CirclePoint" where
  "CirclePoint_init x y =
     (if val (fe_add (fe_square x) (fe_square y)) \<noteq> 1 then Inl ValueError_NotOnCircle
      else Inr (CP x y))"

definition identity :: "error + CirclePoint" where
  "identity = CirclePoint_init fe_one fe_zero"

definition add :: "CirclePoint \<Rightarrow> CirclePoint \<Rightarrow> error + CirclePoint" where
  "add self other =
     (let nx = fe_sub (fe_mul (pt_x self) (pt_x other)) (fe_mul (pt_y self) (pt_y other));
          ny = fe_add (fe_mul (pt_x self) (pt_y other)) (fe_mul (pt_x other) (pt_y self))
      in CirclePoint_init nx ny)"

definition double :: "CirclePoint \<Rightarrow> error + CirclePoint" where
  "double self =
     (let xx = fe_sub (fe_double (fe_square (pt_x self))) fe_one;
          yy = fe_mul (fe_double (pt_x self)) (pt_y self)
      in CirclePoint_init xx yy)"

function power_loop :: "CirclePoint \<Rightarrow> CirclePoint \<Rightarrow> int \<Rightarrow> error + CirclePoint" where
  "power_loop out base tmp =
     (if tmp > 0 then
        (case (if tmp AND 1 \<noteq> 0 then add out base else Inr out) of
           Inl e \<Rightarrow> Inl e
         | Inr out' \<Rightarrow>
             (case double base of
                Inl e \<Rightarrow> Inl e
              | Inr base' \<Rightarrow> power_loop out' base' (tmp div 2)))
      else Inr out)"
  by pat_completeness auto
termination
  by (relation "measure (\<lambda>(out, base, tmp). nat tmp)") auto

definition power_pt :: "CirclePoint \<Rightarrow> int \<Rightarrow> error + CirclePoint" where
  "power_pt self n =
     (if n < 0 then Inl ValueError_NegativeExponent
      else case identity of
             Inl e \<Rightarrow> Inl e
           | Inr out \<Rightarrow>
               (case CirclePoint_init (pt_x self) (pt_y self) of
                  Inl e \<Rightarrow> Inl e
                | Inr base \<Rightarrow> power_loop out base n))"

definition inverse_pt :: "CirclePoint \<Rightarrow> error + CirclePoint" where
  "inverse_pt self = CirclePoint_init (pt_x self) (fe_neg (pt_y self))"

definition pt_eq :: "CirclePoint \<Rightarrow> CirclePoint \<Rightarrow> bool" where
  "pt_eq a b = (fe_eq (pt_x a) (pt_x b) \<and> fe_eq (pt_y a) (pt_y b))"

definition find_generator :: "error + CirclePoint" where
  "find_generator =
     (case find (\<lambda>(xx, yy). (xx * xx + yy * yy) mod MOD = 1)
             (List.product [1..MOD - 1] [1..MOD - 1]) of
        Some (xx, yy) \<Rightarrow> CirclePoint_init (FieldElement_init xx) (FieldElement_init yy)
      | None \<Rightarrow> identity)"

definition get_nth_generator :: "int \<Rightarrow> error + CirclePoint" where
  "get_nth_generator logn =
     (case shl1 logn of
        Inl e \<Rightarrow> Inl e
      | Inr s \<Rightarrow>
          if (MOD + 1) mod s \<noteq> 0 then Inl ValueError_SubgroupSize
          else (case find_generator of
                  Inl e \<Rightarrow> Inl e
                | Inr g \<Rightarrow> power_pt g ((MOD + 1) div s)))"

section \<open>Subgroups and cosets\<close>

text \<open>
  The comprehension of \<open>generate_subgroup\<close> walks \<open>range(1 << k)\<close> with a running
  point: index \<open>0\<close> yields the running point unchanged, every later index first replaces
  it by its sum with the generator.
\<close>

fun subgroup_elems :: "CirclePoint \<Rightarrow> CirclePoint \<Rightarrow> nat list \<Rightarrow> error + CirclePoint list" where
  "subgroup_elems p g [] = Inr []"
| "subgroup_elems p g (i # is) =
     (if i \<noteq> 0 then
        (case add p g of
           Inl e \<Rightarrow> Inl e
         | Inr p' \<Rightarrow>
             (case subgroup_elems p' g is of Inl e \<Rightarrow> Inl e | Inr r \<Rightarrow> Inr (p' # r)))
      else (case subgroup_elems p g is of Inl e \<Rightarrow> Inl e | Inr r \<Rightarrow> Inr (p # r)))"

definition generate_subgroup :: "int \<Rightarrow> error + CirclePoint list" where
  "generate_subgroup k =
     (case get_nth_generator k of
        Inl e \<Rightarrow> Inl e
      | Inr g_k \<Rightarrow>
          (case identity of
             Inl e \<Rightarrow> Inl e
           | Inr p \<Rightarrow>
               (case shl1 k of
                  Inl e \<Rightarrow> Inl e
                | Inr s \<Rightarrow> subgroup_elems p g_k [0..<nat s])))"

definition generate_twin_coset :: "CirclePoint \<Rightarrow> CirclePoint list \<Rightarrow> error + CirclePoint list" where
  "generate_twin_coset Q G_n_minus_1 =
     (case inverse_pt Q of
        Inl e \<Rightarrow> Inl e
      | Inr Q_inv \<Rightarrow>
          (case map_err (add Q) G_n_minus_1 of
             Inl e \<Rightarrow> Inl e
           | Inr coset_Q \<Rightarrow>
               (case map_err (add Q_inv) G_n_minus_1 of
                  Inl e \<Rightarrow> Inl e
                | Inr coset_Q_inv \<Rightarrow> Inr (coset_Q @ coset_Q_inv))))"

definition generate_standard_position_coset ::
    "CirclePoint \<Rightarrow> CirclePoint list \<Rightarrow> error + CirclePoint list" where
  "generate_standard_position_coset Q G_n = map_err (add Q) G_n"

text \<open>
  \<open>decompose_to_twin_cosets(D, n, m)\<close> has no parameter for the coset point: its body
  reads the notebook's global \<open>Q\<close>. The global is the first argument of the model.
\<close>

definition decompose_to_twin_cosets ::
    "CirclePoint \<Rightarrow> CirclePoint list \<Rightarrow> int \<Rightarrow> int \<Rightarrow> error + CirclePoint list list" where
  "decompose_to_twin_cosets Q_global D n m =
     (case shl1 m of
        Inl e \<Rightarrow> Inl e
      | Inr sm \<Rightarrow>
          if int (length D) \<noteq> sm then Inl AssertionError
          else (case generate_subgroup (n - 1) of
                  Inl e \<Rightarrow> Inl e
                | Inr G_n_minus_1 \<Rightarrow>
                    (case shl1 n of
                       Inl e \<Rightarrow> Inl e
                     | Inr sn \<Rightarrow>
                         map_err (\<lambda>k. case power_pt Q_global (4 * k + 1) of
                                         Inl e \<Rightarrow> Inl e
                                       | Inr Q_k \<Rightarrow> generate_twin_coset Q_k G_n_minus_1)
                           [0..sm div sn - 1])))"

text \<open>
  The dictionary of the halving routine is an association list in insertion order:
  assigning to a key that is present replaces its value in place, a new key goes to the
  end. Python's \<open>sort\<close> is stable, as \<open>sort_key\<close> is; the keys are pairs of integers
  compared lexicographically.
\<close>

definition point_key :: "CirclePoint \<Rightarrow> int \<times> int" where
  "point_key pt = (val (pt_x pt), val (pt_y pt))"

definition halve_standard_position_coset_by_squaring_map ::
    "CirclePoint list \<Rightarrow> error + CirclePoint list" where
  "halve_standard_position_coset_by_squaring_map standard_coset =
     (case map_err double standard_coset of
        Inl e \<Rightarrow> Inl e
      | Inr new_points \<Rightarrow>
          (let unique_dict = fold (\<lambda>pt d. AList.update (point_key pt) pt d) new_points [];
               unique = map snd unique_dict
           in Inr (sort_key point_key unique)))"

section \<open>Circle FFT and IFFT\<close>

text \<open>
  The two list comprehensions shared by both forward layers, indexed as in the source:
  \<open>[(left[i] + right[i]) / two for i in range(half)]\<close> and
  \<open>[(left[i] - right[i]) / (factors[i] * two) for i in range(half)]\<close>.
\<close>

definition even_part ::
    "FieldElement list \<Rightarrow> FieldElement list \<Rightarrow> FieldElement \<Rightarrow> nat \<Rightarrow> error + FieldElement list" where
  "even_part left right two half =
     map_err (\<lambda>i. case nth_err left i of
                     Inl e \<Rightarrow> Inl e
                   | Inr l \<Rightarrow>
                       (case nth_err right i of
                          Inl e \<Rightarrow> Inl e
                        | Inr r \<Rightarrow> fe_truediv (fe_add l r) two))
       [0..<half]"

definition odd_part ::
    "FieldElement list \<Rightarrow> FieldElement list \<Rightarrow> FieldElement list \<Rightarrow> FieldElement \<Rightarrow> nat
      \<Rightarrow> error + FieldElement list" where
  "odd_part left right factors two half =
     map_err (\<lambda>i. case nth_err left i of
                     Inl e \<Rightarrow> Inl e
                   | Inr l \<Rightarrow>
                       (case nth_err right i of
                          Inl e \<Rightarrow> Inl e
                        | Inr r \<Rightarrow>
                            (case nth_err factors i of
                               Inl e \<Rightarrow> Inl e
                             | Inr f \<Rightarrow> fe_truediv (fe_sub l r) (fe_mul f two))))
       [0..<half]"

definition interleave :: "'a list \<Rightarrow> 'a list \<Rightarrow> 'a list" where
  "interleave as bs = concat (map (\<lambda>(a, b). [a, b]) (zip as bs))"

definition next_domain :: "FieldElement list \<Rightarrow> nat \<Rightarrow> FieldElement list" where
  "next_domain x_domain half =
     map (\<lambda>x. fe_sub (fe_double (fe_square x)) fe_one) (take half x_domain)"

text \<open>
  The recursive layers call themselves on lists of half the length. On the empty list
  the half is the empty list again, so the recursion never ends (the interpreter gives up
  with \<open>RecursionError\<close>); the model's value is then \<open>None\<close>.
\<close>

partial_function (option) fft_squaring_map_x ::
    "FieldElement list \<Rightarrow> FieldElement list \<Rightarrow> (error + FieldElement list) option" where
  "fft_squaring_map_x values x_domain =
     (let n = length values in
      if n = 1 then Some (Inr [values ! 0])
      else
        let half = n div 2;
            left = take half values;
            right = rev (drop half values);
            x_factors = take half x_domain;
            two = FieldElement_init 2
        in case even_part left right two half of
             Inl e \<Rightarrow> Some (Inl e)
           | Inr f_even_x \<Rightarrow>
               (case odd_part left right x_factors two half of
                  Inl e \<Rightarrow> Some (Inl e)
                | Inr f_odd_x \<Rightarrow>
                    (let next_x_domain = next_domain x_domain half
                     in Option.bind (fft_squaring_map_x f_even_x next_x_domain)
                          (\<lambda>r1. case r1 of
                                   Inl e \<Rightarrow> Some (Inl e)
                                 | Inr coeffs_even \<Rightarrow>
                                     Option.bind (fft_squaring_map_x f_odd_x next_x_domain)
                                       (\<lambda>r2. case r2 of
                                                Inl e \<Rightarrow> Some (Inl e)
                                              | Inr coeffs_odd \<Rightarrow>
                                                  Some (Inr (interleave coeffs_even coeffs_odd)))))))"

declare fft_squaring_map_x.simps [code]

definition fft_quotient_map_y ::
    "FieldElement list \<Rightarrow> CirclePoint list \<Rightarrow> (error + FieldElement list) option" where
  "fft_quotient_map_y values circle_domain =
     (let n = length values in
      if n = 1 then Some (Inr [values ! 0])
      else
        let half = n div 2;
            left = take half values;
            right = rev (drop half values);
            y_factors = map pt_y (take half circle_domain);
            two = FieldElement_init 2
        in case even_part left right two half of
             Inl e \<Rightarrow> Some (Inl e)
           | Inr f_even_y \<Rightarrow>
               (case odd_part left right y_factors two half of
                  Inl e \<Rightarrow> Some (Inl e)
                | Inr f_odd_y \<Rightarrow>
                    (let x_domain = map pt_x circle_domain;
                         half_x_domain = take half x_domain
                     in Option.bind (fft_squaring_map_x f_even_y half_x_domain)
                          (\<lambda>r1. case r1 of
                                   Inl e \<Rightarrow> Some (Inl e)
                                 | Inr coeffs_even \<Rightarrow>
                                     Option.bind (fft_squaring_map_x f_odd_y half_x_domain)
                                       (\<lambda>r2. case r2 of
                                                Inl e \<Rightarrow> Some (Inl e)
                                              | Inr coeffs_odd \<Rightarrow>
                                                  Some (Inr (interleave coeffs_even coeffs_odd)))))))"

definition length_check :: "nat \<Rightarrow> nat \<Rightarrow> bool" where
  "length_check n d = (n \<noteq> d \<or> (int n) AND (int n - 1) \<noteq> 0)"

definition circle_fft :: "int list \<Rightarrow> CirclePoint list \<Rightarrow> (error + int list) option" where
  "circle_fft evaluations circle_domain =
     (if length_check (length evaluations) (length circle_domain) then Some (Inl ValueError_Length)
      else
        let arr = map FieldElement_init evaluations
        in Option.bind (fft_quotient_map_y arr circle_domain)
             (\<lambda>r. case r of
                     Inl e \<Rightarrow> Some (Inl e)
                   | Inr coefficients \<Rightarrow> Some (Inr (map val coefficients))))"

text \<open>The slices \<open>coefficients[::2]\<close> and \<open>coefficients[1::2]\<close>.\<close>

fun even_index :: "'a list \<Rightarrow> 'a list" where
  "even_index [] = []"
| "even_index [a] = [a]"
| "even_index (a # b # cs) = a # even_index cs"

fun odd_index :: "'a list \<Rightarrow> 'a list" where
  "odd_index [] = []"
| "odd_index [a] = []"
| "odd_index (a # b # cs) = b # odd_index cs"

text \<open>
  The reconstruction comprehensions of both inverse layers:
  \<open>[f_even[i] + (factors[i] * f_odd[i]) for i in range(half)]\<close> and the same with
  \<open>-\<close>.
\<close>

definition recon_left ::
    "FieldElement list \<Rightarrow> FieldElement list \<Rightarrow> FieldElement list \<Rightarrow> nat \<Rightarrow> error + FieldElement list" where
  "recon_left f_even factors f_odd half =
     map_err (\<lambda>i. case nth_err f_even i of
                     Inl e \<Rightarrow> Inl e
                   | Inr a \<Rightarrow>
                       (case nth_err factors i of
                          Inl e \<Rightarrow> Inl e
                        | Inr f \<Rightarrow>
                            (case nth_err f_odd i of
                               Inl e \<Rightarrow> Inl e
                             | Inr b \<Rightarrow> Inr (fe_add a (fe_mul f b)))))
       [0..<half]"

definition recon_right ::
    "FieldElement list \<Rightarrow> FieldElement list \<Rightarrow> FieldElement list \<Rightarrow> nat \<Rightarrow> error + FieldElement list" where
  "recon_right f_even factors f_odd half =
     map_err (\<lambda>i. case nth_err f_even i of
                     Inl e \<Rightarrow> Inl e
                   | Inr a \<Rightarrow>
                       (case nth_err factors i of
                          Inl e \<Rightarrow> Inl e
                        | Inr f \<Rightarrow>
                            (case nth_err f_odd i of
                               Inl e \<Rightarrow> Inl e
                             | Inr b \<Rightarrow> Inr (fe_sub a (fe_mul f b)))))
       [0..<half]"

definition reconstruct ::
    "FieldElement list \<Rightarrow> FieldElement list \<Rightarrow> FieldElement list \<Rightarrow> nat \<Rightarrow> error + FieldElement list" where
  "reconstruct f_even factors f_odd half =
     (case recon_left f_even factors f_odd half of
        Inl e \<Rightarrow> Inl e
      | Inr evaluations_left \<Rightarrow>
          (case recon_right f_even factors f_odd half of
             Inl e \<Rightarrow> Inl e
           | Inr evaluations_right \<Rightarrow> Inr (evaluations_left @ rev evaluations_right)))"

partial_function (option) ifft_squaring_map_x ::
    "FieldElement list \<Rightarrow> FieldElement list \<Rightarrow> (error + FieldElement list) option" where
  "ifft_squaring_map_x coefficients x_domain =
     (let n = length coefficients in
      if n = 1 then Some (Inr [coefficients ! 0])
      else
        let half = n div 2;
            coeffs_even = even_index coefficients;
            coeffs_odd = odd_index coefficients;
            x_factors = take half x_domain;
            next_x_domain = next_domain x_domain half
        in Option.bind (ifft_squaring_map_x coeffs_even next_x_domain)
             (\<lambda>r1. case r1 of
                      Inl e \<Rightarrow> Some (Inl e)
                    | Inr f_even_x \<Rightarrow>
                        Option.bind (ifft_squaring_map_x coeffs_odd next_x_domain)
                          (\<lambda>r2. case r2 of
                                   Inl e \<Rightarrow> Some (Inl e)
                                 | Inr f_odd_x \<Rightarrow>
                                     Some (reconstruct f_even_x x_factors f_odd_x half))))"

declare ifft_squaring_map_x.simps [code]

definition ifft_quotient_map_y ::
    "FieldElement list \<Rightarrow> CirclePoint list \<Rightarrow> (error + FieldElement list) option" where
  "ifft_quotient_map_y coefficients circle_domain =
     (let n = length coefficients in
      if n = 1 then Some (Inr [coefficients ! 0])
      else
        let half = n div 2;
            coeffs_even = even_index coefficients;
            coeffs_odd = odd_index coefficients;
            x_domain = map pt_x circle_domain;
            y_factors = map pt_y circle_domain;
            half_x_domain = take half x_domain
        in Option.bind (ifft_squaring_map_x coeffs_even half_x_domain)
             (\<lambda>r1. case r1 of
                      Inl e \<Rightarrow> Some (Inl e)
                    | Inr f_even_y \<Rightarrow>
                        Option.bind (ifft_squaring_map_x coeffs_odd half_x_domain)
                          (\<lambda>r2. case r2 of
                                   Inl e \<Rightarrow> Some (Inl e)
                                 | Inr f_odd_y \<Rightarrow>
                                     Some (reconstruct f_even_y y_factors f_odd_y half))))"

definition circle_ifft :: "int list \<Rightarrow> CirclePoint list \<Rightarrow> (error + int list) option" where
  "circle_ifft coefficients circle_domain =
     (if length_check (length coefficients) (length circle_domain) then Some (Inl ValueError_Length)
      else
        let arr = map FieldElement_init coefficients
        in Option.bind (ifft_quotient_map_y arr circle_domain)
             (\<lambda>r. case r of
                     Inl e \<Rightarrow> Some (Inl e)
                   | Inr evaluations \<Rightarrow> Some (Inr (map val evaluations))))"

section \<open>Invariants of the data model\<close>

text \<open>
  A \<open>FieldElement\<close> object always holds a value reduced into \<open>[0, MOD)\<close>, because its
  constructor reduces; a \<open>CirclePoint\<close> object always passed the check of its
  constructor. The model's datatypes also contain values no constructor call produces,
  so the two invariants are predicates.
\<close>

definition is_field_element :: "FieldElement \<Rightarrow> bool" where
  "is_field_element a = (0 \<le> val a \<and> val a < MOD)"

definition is_circle_point :: "CirclePoint \<Rightarrow> bool" where
  "is_circle_point P =
     (is_field_element (pt_x P) \<and> is_field_element (pt_y P) \<and>
      CirclePoint_init (pt_x P) (pt_y P) = Inr P)"

text \<open>
  The field elements and the circle points over the field with \<open>MOD = 31\<close>, as lists:
  the points are listed in the order of \<open>generate_subgroup(5)\<close>.
\<close>

definition all_elements :: "FieldElement list" where
  "all_elements = map FE [0..30]"

definition all_points :: "CirclePoint list" where
  "all_points =
     [CP (FE 1) (FE 0), CP (FE 2) (FE 11), CP (FE 7) (FE 13), CP (FE 26) (FE 10),
      CP (FE 4) (FE 27), CP (FE 21) (FE 5), CP (FE 18) (FE 24), CP (FE 20) (FE 29),
      CP (FE 0) (FE 30), CP (FE 11) (FE 29), CP (FE 13) (FE 24), CP (FE 10) (FE 5),
      CP (FE 27) (FE 27), CP (FE 5) (FE 10), CP (FE 24) (FE 13), CP (FE 29) (FE 11),
      CP (FE 30) (FE 0), CP (FE 29) (FE 20), CP (FE 24) (FE 18), CP (FE 5) (FE 21),
      CP (FE 27) (FE 4), CP (FE 10) (FE 26), CP (FE 13) (FE 7), CP (FE 11) (FE 2),
      CP (FE 0) (FE 1), CP (FE 20) (FE 2), CP (FE 18) (FE 7), CP (FE 21) (FE 26),
      CP (FE 4) (FE 4), CP (FE 26) (FE 21), CP (FE 7) (FE 18), CP (FE 2) (FE 20)]"

text \<open>
  A sufficient condition for a transform of length \<open>2 ^ k\<close> to meet no zero divisor:
  at every layer the factors the odd part divides by are nonzero field elements. The
  layers below the top one read the factors of \<open>x_domain\<close> and pass \<open>next_domain\<close> on.
\<close>

primrec x_layers_ok :: "nat \<Rightarrow> FieldElement list \<Rightarrow> bool" where
  "x_layers_ok 0 x_domain = True"
| "x_layers_ok (Suc k) x_domain =
     (2 ^ k \<le> length x_domain \<and>
      list_all (\<lambda>f. is_field_element f \<and> val f \<noteq> 0) (take (2 ^ k) x_domain) \<and>
      x_layers_ok k (next_domain x_domain (2 ^ k)))"

definition domain_ok :: "nat \<Rightarrow> CirclePoint list \<Rightarrow> bool" where
  "domain_ok k circle_domain =
     (case k of
        0 \<Rightarrow> True
      | Suc j \<Rightarrow>
          list_all (\<lambda>f. is_field_element f \<and> val f \<noteq> 0) (map pt_y (take (2 ^ j) circle_domain)) \<and>
          x_layers_ok j (take (2 ^ j) (map pt_x circle_domain)))"

text \<open>
  Every entry the halving routine stores in its dictionary has the key of the point it
  holds.
\<close>

definition keyed :: "(int \<times> int) \<times> CirclePoint \<Rightarrow> bool" where
  "keyed e = (fst e = point_key (snd e))"

text \<open>
  The loop of \<open>power\<close> is unfolded by hand where needed: its defining equation
  rewrites every call into a term with a further call.
\<close>

declare power_loop.simps [simp del]

section \<open>Enumerating the field and the circle\<close>

lemma in_all_elements: "is_field_element a \<Longrightarrow> a \<in> set all_elements"
proof -
  assume h: "is_field_element a"
  then have "val a \<in> {0..30}" by (simp add: is_field_element_def MOD_def)
  then have "FE (val a) \<in> FE ` {0..30}" by (rule imageI)
  then show ?thesis by (simp add: all_elements_def)
qed

lemma all_elements_field: "a \<in> set all_elements \<Longrightarrow> is_field_element a"
  by (auto simp: all_elements_def is_field_element_def MOD_def)

lemma on_circle_enum:
  "list_all (\<lambda>x. list_all (\<lambda>y. val (fe_add (fe_square x) (fe_square y)) \<noteq> 1
       \<or> List.member all_points (CP x y)) all_elements) all_elements"
  by code_simp

lemma in_all_points: "is_circle_point P \<Longrightarrow> P \<in> set all_points"
proof -
  assume h: "is_circle_point P"
  then have x: "pt_x P \<in> set all_elements" and y: "pt_y P \<in> set all_elements"
    by (simp_all add: is_circle_point_def in_all_elements)
  from h have c: "val (fe_add (fe_square (pt_x P)) (fe_square (pt_y P))) = 1"
    by (auto simp: is_circle_point_def CirclePoint_init_def split: if_splits)
  from on_circle_enum x y c have "List.member all_points (CP (pt_x P) (pt_y P))"
    unfolding list_all_iff by blast
  then show ?thesis by simp
qed

lemma all_points_circle_enum: "list_all is_circle_point all_points"
  by code_simp

lemma all_points_circle: "P \<in> set all_points \<Longrightarrow> is_circle_point P"
  using all_points_circle_enum by (simp add: list_all_iff)

section \<open>Lists with errors, interleaving and slices\<close>

lemma map_err_Inr_iff:
  "map_err f xs = Inr ys \<longleftrightarrow> length ys = length xs \<and> (\<forall>i<length xs. f (xs ! i) = Inr (ys ! i))"
proof (induction xs arbitrary: ys)
  case Nil
  then show ?case by auto
next
  case (Cons a as)
  show ?case
  proof (cases "f a")
    case (Inl e)
    then show ?thesis by auto
  next
    case (Inr b)
    show ?thesis
    proof (cases "map_err f as")
      case (Inl e)
      with Cons.IH [of "tl ys"] Inr show ?thesis
        by (cases ys) (auto simp: nth_Cons split: nat.splits)
    next
      case r: (Inr bs)
      with Cons.IH [of bs] Cons.IH [of "tl ys"] Inr show ?thesis
        by (cases ys) (auto simp: nth_Cons less_Suc_eq_0_disj split: nat.splits)
    qed
  qed
qed

lemma map_err_upt_Inr_iff:
  "map_err f [0..<n] = Inr ys \<longleftrightarrow> length ys = n \<and> (\<forall>i<n. f i = Inr (ys ! i))"
  by (simp add: map_err_Inr_iff)

lemma map_err_upt_ex:
  assumes "\<forall>i<n. \<exists>y. f i = Inr y \<and> Q i y"
  shows "\<exists>ys. map_err f [0..<n] = Inr ys \<and> length ys = n \<and> (\<forall>i<n. Q i (ys ! i))"
proof -
  from assms obtain g where g: "\<forall>i<n. f i = Inr (g i) \<and> Q i (g i)"
    by metis
  let ?ys = "map g [0..<n]"
  have "map_err f [0..<n] = Inr ?ys"
    using g by (simp add: map_err_upt_Inr_iff)
  moreover have "\<forall>i<n. Q i (?ys ! i)" using g by simp
  ultimately show ?thesis by auto
qed

lemma length_interleave: "length (interleave as bs) = 2 * min (length as) (length bs)"
  unfolding interleave_def
  by (induction as bs rule: list_induct2') auto

lemma set_interleave: "set (interleave as bs) \<subseteq> set as \<union> set bs"
  unfolding interleave_def
  by (induction as bs rule: list_induct2') auto

lemma even_index_interleave: "length as = length bs \<Longrightarrow> even_index (interleave as bs) = as"
  unfolding interleave_def
  by (induction as bs rule: list_induct2) auto

lemma odd_index_interleave: "length as = length bs \<Longrightarrow> odd_index (interleave as bs) = bs"
  unfolding interleave_def
  by (induction as bs rule: list_induct2) auto

lemma length_even_index: "length (even_index xs) = (length xs + 1) div 2"
  by (induction xs rule: even_index.induct) auto

lemma length_odd_index: "length (odd_index xs) = length xs div 2"
  by (induction xs rule: odd_index.induct) auto

lemma set_even_index: "set (even_index xs) \<subseteq> set xs"
  by (induction xs rule: even_index.induct) auto

lemma set_odd_index: "set (odd_index xs) \<subseteq> set xs"
  by (induction xs rule: odd_index.induct) auto

lemma pow2_and_mask: "(2 ^ k :: int) AND (2 ^ k - 1) = 0"
proof -
  have "(2 ^ k :: int) AND mask k = 0"
    by (rule bit_eqI) (auto simp: bit_simps)
  then show ?thesis by (simp add: mask_eq_exp_minus_1)
qed

lemma length_check_pow2: "length_check (2 ^ k) (2 ^ k) = False"
  by (simp add: length_check_def pow2_and_mask)

section \<open>One layer of the transform\<close>

lemma is_field_element_init [simp]: "is_field_element (FieldElement_init v)"
  by (simp add: is_field_element_def FieldElement_init_def MOD_def)

lemma is_field_element_ops [simp]:
  "is_field_element (fe_add a b)" "is_field_element (fe_sub a b)" "is_field_element (fe_mul a b)"
  by (simp_all add: fe_add_def fe_sub_def fe_mul_def)

lemma init_val: "is_field_element a \<Longrightarrow> FieldElement_init (val a) = a"
  by (cases a) (simp add: is_field_element_def FieldElement_init_def MOD_def)

lemma val_init: "0 \<le> e \<Longrightarrow> e < MOD \<Longrightarrow> val (FieldElement_init e) = e"
  by (simp add: FieldElement_init_def)

lemma two_eq: "FieldElement_init 2 = FE 2"
  by (simp add: FieldElement_init_def MOD_def)

lemma div_two: "fe_truediv a (FE 2) = Inr (fe_mul a (FE 16))"
  by (simp add: fe_truediv_def fe_inv_def FieldElement_init_def MOD_def)

lemma halves_enum:
  "list_all (\<lambda>l. list_all (\<lambda>r.
       fe_add (fe_mul (fe_add l r) (FE 16)) (fe_mul (fe_sub l r) (FE 16)) = l \<and>
       fe_sub (fe_mul (fe_add l r) (FE 16)) (fe_mul (fe_sub l r) (FE 16)) = r)
     all_elements) all_elements"
  by code_simp

lemma odd_enum:
  "list_all (\<lambda>f. val f = 0 \<or> list_all (\<lambda>d.
       case fe_truediv d (fe_mul f (FE 2)) of
         Inr q \<Rightarrow> fe_mul f q = fe_mul d (FE 16)
       | Inl e \<Rightarrow> False)
     all_elements) all_elements"
  by code_simp

lemma halves:
  assumes "is_field_element l" "is_field_element r"
  shows "fe_add (fe_mul (fe_add l r) (FE 16)) (fe_mul (fe_sub l r) (FE 16)) = l"
    and "fe_sub (fe_mul (fe_add l r) (FE 16)) (fe_mul (fe_sub l r) (FE 16)) = r"
  using halves_enum assms [THEN in_all_elements] unfolding list_all_iff by blast+

lemma odd_quotient:
  assumes "is_field_element f" "val f \<noteq> 0" "is_field_element d"
  shows "\<exists>q. fe_truediv d (fe_mul f (FE 2)) = Inr q \<and> is_field_element q \<and>
              fe_mul f q = fe_mul d (FE 16)"
proof -
  from odd_enum assms(1,3) [THEN in_all_elements] assms(2)
  have "case fe_truediv d (fe_mul f (FE 2)) of
          Inr q \<Rightarrow> fe_mul f q = fe_mul d (FE 16) | Inl e \<Rightarrow> False"
    unfolding list_all_iff by blast
  then obtain q where q: "fe_truediv d (fe_mul f (FE 2)) = Inr q" "fe_mul f q = fe_mul d (FE 16)"
    by (cases "fe_truediv d (fe_mul f (FE 2))") auto
  from q(1) have "is_field_element q"
    by (auto simp: fe_truediv_def split: sum.splits)
  with q show ?thesis by blast
qed

lemma nth_err_lt [simp]: "i < length xs \<Longrightarrow> nth_err xs i = Inr (xs ! i)"
  by (simp add: nth_err_def)

lemma split_parts:
  assumes len: "length values = 2 * half"
    and fe: "\<forall>a\<in>set values. is_field_element a"
    and fl: "half \<le> length factors" "half \<le> length factors'"
    and agree: "\<forall>i<half. factors' ! i = factors ! i"
    and nz: "\<forall>i<half. is_field_element (factors ! i) \<and> val (factors ! i) \<noteq> 0"
  shows "\<exists>ev od.
      even_part (take half values) (rev (drop half values)) (FE 2) half = Inr ev \<and>
      odd_part (take half values) (rev (drop half values)) factors (FE 2) half = Inr od \<and>
      length ev = half \<and> length od = half \<and>
      (\<forall>a\<in>set ev. is_field_element a) \<and> (\<forall>a\<in>set od. is_field_element a) \<and>
      reconstruct ev factors' od half = Inr values"
proof -
  let ?left = "take half values" and ?right = "rev (drop half values)"
  have ll: "length ?left = half" and lr: "length ?right = half"
    using len by simp_all
  have fel: "is_field_element (?left ! i)" and fer: "is_field_element (?right ! i)" if "i < half" for i
  proof -
    from that ll have "?left ! i \<in> set ?left" by (metis nth_mem)
    then have "?left ! i \<in> set values" by (rule in_set_takeD)
    with fe show "is_field_element (?left ! i)" by blast
    from that lr have "?right ! i \<in> set ?right" by (metis nth_mem)
    then have "?right ! i \<in> set values" by (auto dest: in_set_dropD)
    with fe show "is_field_element (?right ! i)" by blast
  qed
  have "\<forall>i<half. \<exists>y. (case nth_err ?left i of Inl e \<Rightarrow> Inl e
            | Inr l \<Rightarrow> (case nth_err ?right i of Inl e \<Rightarrow> Inl e
            | Inr r \<Rightarrow> fe_truediv (fe_add l r) (FE 2))) = Inr y \<and>
          y = fe_mul (fe_add (?left ! i) (?right ! i)) (FE 16)"
    using ll lr by (simp add: div_two)
  from map_err_upt_ex [OF this]
  obtain ev where ev: "even_part ?left ?right (FE 2) half = Inr ev" "length ev = half"
      "\<forall>i<half. ev ! i = fe_mul (fe_add (?left ! i) (?right ! i)) (FE 16)"
    unfolding even_part_def by blast
  have "\<forall>i<half. \<exists>y. (case nth_err ?left i of Inl e \<Rightarrow> Inl e
            | Inr l \<Rightarrow> (case nth_err ?right i of Inl e \<Rightarrow> Inl e
            | Inr r \<Rightarrow> (case nth_err factors i of Inl e \<Rightarrow> Inl e
            | Inr f \<Rightarrow> fe_truediv (fe_sub l r) (fe_mul f (FE 2))))) = Inr y \<and>
          (is_field_element y \<and>
           fe_mul (factors ! i) y = fe_mul (fe_sub (?left ! i) (?right ! i)) (FE 16))"
  proof (intro allI impI)
    fix i assume i: "i < half"
    from nz i have "is_field_element (factors ! i)" "val (factors ! i) \<noteq> 0" by auto
    from odd_quotient [OF this is_field_element_ops(2)]
    obtain q where "fe_truediv (fe_sub (?left ! i) (?right ! i)) (fe_mul (factors ! i) (FE 2)) = Inr q"
        "is_field_element q"
        "fe_mul (factors ! i) q = fe_mul (fe_sub (?left ! i) (?right ! i)) (FE 16)"
      by blast
    with i ll lr fl show "\<exists>y. (case nth_err ?left i of Inl e \<Rightarrow> Inl e
            | Inr l \<Rightarrow> (case nth_err ?right i of Inl e \<Rightarrow> Inl e
            | Inr r \<Rightarrow> (case nth_err factors i of Inl e \<Rightarrow> Inl e
            | Inr f \<Rightarrow> fe_truediv (fe_sub l r) (fe_mul f (FE 2))))) = Inr y \<and>
          (is_field_element y \<and>
           fe_mul (factors ! i) y = fe_mul (fe_sub (?left ! i) (?right ! i)) (FE 16))"
      by simp
  qed
  from map_err_upt_ex [OF this]
  obtain od where od: "odd_part ?left ?right factors (FE 2) half = Inr od" "length od = half"
      "\<forall>i<half. is_field_element (od ! i) \<and>
         fe_mul (factors ! i) (od ! i) = fe_mul (fe_sub (?left ! i) (?right ! i)) (FE 16)"
    unfolding odd_part_def by blast
  have feE: "\<forall>a\<in>set ev. is_field_element a"
    using ev(2,3) by (auto simp: all_set_conv_all_nth)
  have feO: "\<forall>a\<in>set od. is_field_element a"
    using od(2,3) by (auto simp: all_set_conv_all_nth)
  have L: "recon_left ev factors' od half = Inr ?left"
    unfolding recon_left_def map_err_upt_Inr_iff
    using ll ev(2,3) od(2,3) fl agree halves(1) [OF fel fer] by simp
  have R: "recon_right ev factors' od half = Inr ?right"
    unfolding recon_right_def map_err_upt_Inr_iff
    using lr ev(2,3) od(2,3) fl agree halves(2) [OF fel fer] by simp
  have "reconstruct ev factors' od half = Inr values"
    by (simp add: reconstruct_def L R)
  with ev(1,2) od(1,2) feE feO show ?thesis by blast
qed

section \<open>The round trip on a domain without zero divisors\<close>

lemma fft_x_roundtrip:
  "length vs = 2 ^ k \<Longrightarrow> \<forall>a\<in>set vs. is_field_element a \<Longrightarrow> x_layers_ok k xd \<Longrightarrow>
     \<exists>c. fft_squaring_map_x vs xd = Some (Inr c) \<and> length c = 2 ^ k \<and>
         (\<forall>a\<in>set c. is_field_element a) \<and>
         ifft_squaring_map_x c xd = Some (Inr vs)"
proof (induction k arbitrary: vs xd)
  case 0
  then obtain a where v: "vs = [a]"
    by (cases vs) auto
  have "fft_squaring_map_x vs xd = Some (Inr vs)"
    by (subst fft_squaring_map_x.simps) (simp add: v)
  moreover have "ifft_squaring_map_x vs xd = Some (Inr vs)"
    by (subst ifft_squaring_map_x.simps) (simp add: v)
  ultimately show ?case using 0 by simp
next
  case (Suc k)
  let ?half = "(2::nat) ^ k"
  let ?xf = "take ?half xd"
  let ?next = "next_domain xd ?half"
  from Suc.prems(3) have xl: "?half \<le> length xd"
    and nzl: "list_all (\<lambda>f. is_field_element f \<and> val f \<noteq> 0) ?xf"
    and ok: "x_layers_ok k ?next"
    by simp_all
  have len: "length vs = 2 * ?half" using Suc.prems(1) by simp
  have n1: "length vs \<noteq> Suc 0" using len by presburger
  have hd: "length vs div 2 = ?half" using len by simp
  have lxf: "?half \<le> length ?xf" using xl by simp
  have nz: "\<forall>i<?half. is_field_element (?xf ! i) \<and> val (?xf ! i) \<noteq> 0"
    using nzl xl by (simp add: list_all_length)
  from split_parts [OF len Suc.prems(2) lxf lxf _ nz]
  obtain ev od where
    ev: "even_part (take ?half vs) (rev (drop ?half vs)) (FE 2) ?half = Inr ev"
    and od: "odd_part (take ?half vs) (rev (drop ?half vs)) ?xf (FE 2) ?half = Inr od"
    and lev: "length ev = ?half" and lod: "length od = ?half"
    and fev: "\<forall>a\<in>set ev. is_field_element a" and fod: "\<forall>a\<in>set od. is_field_element a"
    and rec: "reconstruct ev ?xf od ?half = Inr vs"
    by blast
  from Suc.IH [OF lev fev ok] obtain ce where
    ce: "fft_squaring_map_x ev ?next = Some (Inr ce)" "length ce = ?half"
      "\<forall>a\<in>set ce. is_field_element a" "ifft_squaring_map_x ce ?next = Some (Inr ev)"
    by blast
  from Suc.IH [OF lod fod ok] obtain co where
    co: "fft_squaring_map_x od ?next = Some (Inr co)" "length co = ?half"
      "\<forall>a\<in>set co. is_field_element a" "ifft_squaring_map_x co ?next = Some (Inr od)"
    by blast
  let ?c = "interleave ce co"
  have f: "fft_squaring_map_x vs xd = Some (Inr ?c)"
    by (subst fft_squaring_map_x.simps) (simp add: Let_def n1 hd two_eq ev od ce(1) co(1))
  have lc: "length ?c = 2 ^ Suc k"
    by (simp add: length_interleave ce(2) co(2))
  have fc: "\<forall>a\<in>set ?c. is_field_element a"
    using set_interleave [of ce co] ce(3) co(3) by blast
  have n1': "length ?c \<noteq> Suc 0" using lc len Suc.prems(1) n1 by simp
  have hd': "length ?c div 2 = ?half" using lc by simp
  have i: "ifft_squaring_map_x ?c xd = Some (Inr vs)"
    by (subst ifft_squaring_map_x.simps)
      (simp add: Let_def n1' hd' even_index_interleave odd_index_interleave ce(2,4) co(2,4) rec)
  from f lc fc i show ?case by blast
qed

lemma fft_y_roundtrip:
  assumes "length vs = 2 ^ k" "\<forall>a\<in>set vs. is_field_element a"
    and "length D = 2 ^ k" "domain_ok k D"
  shows "\<exists>c. fft_quotient_map_y vs D = Some (Inr c) \<and> length c = 2 ^ k \<and>
         (\<forall>a\<in>set c. is_field_element a) \<and>
         ifft_quotient_map_y c D = Some (Inr vs)"
proof (cases k)
  case 0
  with assms(1) obtain a where v: "vs = [a]"
    by (cases vs) auto
  then show ?thesis using assms(2) 0
    by (simp add: fft_quotient_map_y_def ifft_quotient_map_y_def)
next
  case (Suc j)
  let ?half = "(2::nat) ^ j"
  let ?yf = "map pt_y (take ?half D)"
  let ?yf' = "map pt_y D"
  let ?hx = "take ?half (map pt_x D)"
  from assms(4) Suc have nzl: "list_all (\<lambda>f. is_field_element f \<and> val f \<noteq> 0) ?yf"
    and ok: "x_layers_ok j ?hx"
    by (simp_all add: domain_ok_def)
  have lD: "length D = 2 * ?half" using assms(3) Suc by simp
  have len: "length vs = 2 * ?half" using assms(1) Suc by simp
  have n1: "length vs \<noteq> Suc 0" using len by presburger
  have hd: "length vs div 2 = ?half" using len by simp
  have lyf: "?half \<le> length ?yf" and lyf': "?half \<le> length ?yf'" using lD by simp_all
  have agree: "\<forall>i<?half. ?yf' ! i = ?yf ! i" using lD by simp
  have nz: "\<forall>i<?half. is_field_element (?yf ! i) \<and> val (?yf ! i) \<noteq> 0"
    using nzl lD by (simp add: list_all_length)
  from split_parts [OF len assms(2) lyf lyf' agree nz]
  obtain ev od where
    ev: "even_part (take ?half vs) (rev (drop ?half vs)) (FE 2) ?half = Inr ev"
    and od: "odd_part (take ?half vs) (rev (drop ?half vs)) ?yf (FE 2) ?half = Inr od"
    and lev: "length ev = ?half" and lod: "length od = ?half"
    and fev: "\<forall>a\<in>set ev. is_field_element a" and fod: "\<forall>a\<in>set od. is_field_element a"
    and rec: "reconstruct ev ?yf' od ?half = Inr vs"
    by blast
  from fft_x_roundtrip [OF lev fev ok] obtain ce where
    ce: "fft_squaring_map_x ev ?hx = Some (Inr ce)" "length ce = ?half"
      "\<forall>a\<in>set ce. is_field_element a" "ifft_squaring_map_x ce ?hx = Some (Inr ev)"
    by blast
  from fft_x_roundtrip [OF lod fod ok] obtain co where
    co: "fft_squaring_map_x od ?hx = Some (Inr co)" "length co = ?half"
      "\<forall>a\<in>set co. is_field_element a" "ifft_squaring_map_x co ?hx = Some (Inr od)"
    by blast
  let ?c = "interleave ce co"
  have f: "fft_quotient_map_y vs D = Some (Inr ?c)"
    by (simp add: fft_quotient_map_y_def Let_def n1 hd two_eq ev od ce(1) co(1))
  have lc: "length ?c = 2 ^ k"
    by (simp add: length_interleave ce(2) co(2) Suc)
  have fc: "\<forall>a\<in>set ?c. is_field_element a"
    using set_interleave [of ce co] ce(3) co(3) by blast
  have n1': "length ?c \<noteq> Suc 0" using lc len assms(1) n1 by simp
  have hd': "length ?c div 2 = ?half" using lc Suc by simp
  have i: "ifft_quotient_map_y ?c D = Some (Inr vs)"
    by (simp add: ifft_quotient_map_y_def Let_def n1' hd' even_index_interleave odd_index_interleave
        ce(2,4) co(2,4) rec)
  from f lc fc i show ?thesis by blast
qed

lemma map_init_val: "\<forall>a\<in>set c. is_field_element a \<Longrightarrow> map (FieldElement_init \<circ> val) c = c"
  by (induction c) (simp_all add: init_val)

lemma map_val_init:
  "\<forall>e\<in>set v. 0 \<le> e \<and> e < MOD \<Longrightarrow> map (val \<circ> FieldElement_init) v = v"
  by (induction v) (simp_all add: val_init)

lemma circle_roundtrip:
  assumes "length v = 2 ^ k" "length D = 2 ^ k" "domain_ok k D"
    and "\<forall>e\<in>set v. 0 \<le> e \<and> e < MOD"
  shows "\<exists>c. circle_fft v D = Some (Inr c) \<and> circle_ifft c D = Some (Inr v)"
proof -
  let ?arr = "map FieldElement_init v"
  have "length ?arr = 2 ^ k" "\<forall>a\<in>set ?arr. is_field_element a"
    using assms(1) by auto
  from fft_y_roundtrip [OF this assms(2,3)] obtain c where
    c: "fft_quotient_map_y ?arr D = Some (Inr c)" "length c = 2 ^ k"
      "\<forall>a\<in>set c. is_field_element a" "ifft_quotient_map_y c D = Some (Inr ?arr)"
    by blast
  have f: "circle_fft v D = Some (Inr (map val c))"
    by (simp add: circle_fft_def assms(1,2) length_check_pow2 c(1))
  have "circle_ifft (map val c) D = Some (Inr v)"
    by (simp add: circle_ifft_def assms(2) c(2) length_check_pow2 map_init_val [OF c(3)] c(4)
        map_val_init [OF assms(4)])
  with f show ?thesis by blast
qed

section \<open>Outputs are reduced; the empty input\<close>


lemma fe_truediv_field: "fe_truediv a b = Inr q \<Longrightarrow> is_field_element q"
  by (auto simp: fe_truediv_def split: sum.splits)

lemma map_err_all:
  assumes "map_err f xs = Inr ys" and "\<And>x y. f x = Inr y \<Longrightarrow> Q y"
  shows "\<forall>y\<in>set ys. Q y"
proof -
  from assms(1) have "length ys = length xs" "\<forall>i<length xs. f (xs ! i) = Inr (ys ! i)"
    by (simp_all add: map_err_Inr_iff)
  with assms(2) have "\<forall>i<length ys. Q (ys ! i)" by metis
  then show ?thesis by (simp add: all_set_conv_all_nth)
qed

lemma even_part_field:
  assumes "even_part left right two half = Inr ev"
  shows "\<forall>a\<in>set ev. is_field_element a"
  using assms unfolding even_part_def
  by (rule map_err_all) (auto split: sum.splits dest: fe_truediv_field)

lemma odd_part_field:
  assumes "odd_part left right factors two half = Inr od"
  shows "\<forall>a\<in>set od. is_field_element a"
  using assms unfolding odd_part_def
  by (rule map_err_all) (auto split: sum.splits dest: fe_truediv_field)

lemma recon_left_field:
  assumes "recon_left f_even factors f_odd half = Inr l"
  shows "\<forall>a\<in>set l. is_field_element a"
  using assms unfolding recon_left_def
  by (rule map_err_all) (auto split: sum.splits)

lemma recon_right_field:
  assumes "recon_right f_even factors f_odd half = Inr l"
  shows "\<forall>a\<in>set l. is_field_element a"
  using assms unfolding recon_right_def
  by (rule map_err_all) (auto split: sum.splits)

lemma reconstruct_field:
  assumes "reconstruct f_even factors f_odd half = Inr r"
  shows "\<forall>a\<in>set r. is_field_element a"
proof -
  from assms obtain l r' where l: "recon_left f_even factors f_odd half = Inr l"
    and r': "recon_right f_even factors f_odd half = Inr r'" and r: "r = l @ rev r'"
    by (auto simp: reconstruct_def split: sum.splits)
  from recon_left_field [OF l] recon_right_field [OF r'] r show ?thesis by auto
qed

lemma fft_x_field:
  assumes "fft_squaring_map_x vs xd = Some r"
  shows "(\<forall>a\<in>set vs. is_field_element a) \<longrightarrow> (\<forall>c. r = Inr c \<longrightarrow> (\<forall>a\<in>set c. is_field_element a))"
proof (rule fft_squaring_map_x.raw_induct
    [where P = "\<lambda>vs xd r. (\<forall>a\<in>set vs. is_field_element a) \<longrightarrow>
                  (\<forall>c. r = Inr c \<longrightarrow> (\<forall>a\<in>set c. is_field_element a))", OF _ assms],
    goal_cases)
  case (1 f vs xd r)
  note IH = "1"(1) and body = "1"(2)
  show ?case
  proof (intro impI allI)
    fix c
    assume fe: "\<forall>a\<in>set vs. is_field_element a" and r: "r = Inr c"
    show "\<forall>a\<in>set c. is_field_element a"
    proof (cases "length vs = 1")
      case True
      then obtain a where "vs = [a]" by (cases vs) auto
      with body r fe show ?thesis by (auto simp: Let_def)
    next
      case False
      let ?half = "length vs div 2"
      let ?next = "next_domain xd ?half"
      from body False r obtain ev od r1 r2 where
        ev: "even_part (take ?half vs) (rev (drop ?half vs)) (FieldElement_init 2) ?half = Inr ev"
        and od: "odd_part (take ?half vs) (rev (drop ?half vs)) (take ?half xd) (FieldElement_init 2) ?half = Inr od"
        and r1: "f ev ?next = Some r1" and r2: "f od ?next = Some r2"
        by (auto simp: Let_def split: sum.splits Option.bind_splits)
      from body False r ev od r1 r2 obtain ce co where
        ce: "r1 = Inr ce" and co: "r2 = Inr co" and c: "c = interleave ce co"
        by (auto simp: Let_def split: sum.splits)
      from IH [OF r1] even_part_field [OF ev] ce have "\<forall>a\<in>set ce. is_field_element a"
        by blast
      moreover from IH [OF r2] odd_part_field [OF od] co have "\<forall>a\<in>set co. is_field_element a"
        by blast
      ultimately show ?thesis using set_interleave [of ce co] c by blast
    qed
  qed
qed

lemma fft_x_nonempty:
  assumes "fft_squaring_map_x vs xd = Some r"
  shows "vs \<noteq> []"
proof (rule fft_squaring_map_x.raw_induct [where P = "\<lambda>vs xd r. vs \<noteq> []", OF _ assms], goal_cases)
  case (1 f vs xd r)
  note IH = "1"(1) and body = "1"(2)
  show ?case
  proof
    assume "vs = []"
    with body obtain r1 nx where "f [] nx = Some r1"
      by (auto simp: Let_def even_part_def odd_part_def split: Option.bind_splits)
    from IH [OF this] show False by simp
  qed
qed

lemma fft_x_empty: "fft_squaring_map_x [] xd = None"
  using fft_x_nonempty [of "[]" xd] by (cases "fft_squaring_map_x [] xd") auto

lemma ifft_x_nonempty:
  assumes "ifft_squaring_map_x vs xd = Some r"
  shows "vs \<noteq> []"
proof (rule ifft_squaring_map_x.raw_induct [where P = "\<lambda>vs xd r. vs \<noteq> []", OF _ assms], goal_cases)
  case (1 f vs xd r)
  note IH = "1"(1) and body = "1"(2)
  show ?case
  proof
    assume "vs = []"
    with body obtain r1 nx where "f [] nx = Some r1"
      by (auto simp: Let_def split: Option.bind_splits)
    from IH [OF this] show False by simp
  qed
qed

lemma ifft_x_empty: "ifft_squaring_map_x [] xd = None"
  using ifft_x_nonempty [of "[]" xd] by (cases "ifft_squaring_map_x [] xd") auto

lemma fft_y_field:
  assumes "fft_quotient_map_y vs D = Some (Inr c)" and fe: "\<forall>a\<in>set vs. is_field_element a"
  shows "\<forall>a\<in>set c. is_field_element a"
proof (cases "length vs = 1")
  case True
  then obtain a where "vs = [a]" by (cases vs) auto
  with assms show ?thesis by (auto simp: fft_quotient_map_y_def)
next
  case False
  let ?half = "length vs div 2"
  let ?hx = "take ?half (map pt_x D)"
  from assms(1) False obtain ev od r1 r2 where
    ev: "even_part (take ?half vs) (rev (drop ?half vs)) (FieldElement_init 2) ?half = Inr ev"
    and od: "odd_part (take ?half vs) (rev (drop ?half vs)) (map pt_y (take ?half D))
               (FieldElement_init 2) ?half = Inr od"
    and r1: "fft_squaring_map_x ev ?hx = Some r1" and r2: "fft_squaring_map_x od ?hx = Some r2"
    by (auto simp: fft_quotient_map_y_def Let_def split: sum.splits Option.bind_splits)
  from assms(1) False ev od r1 r2 obtain ce co where
    ce: "r1 = Inr ce" and co: "r2 = Inr co" and c: "c = interleave ce co"
    by (auto simp: fft_quotient_map_y_def Let_def split: sum.splits)
  from fft_x_field [OF r1] even_part_field [OF ev] ce have "\<forall>a\<in>set ce. is_field_element a"
    by blast
  moreover from fft_x_field [OF r2] odd_part_field [OF od] co have "\<forall>a\<in>set co. is_field_element a"
    by blast
  ultimately show ?thesis using set_interleave [of ce co] c by blast
qed

lemma ifft_y_field:
  assumes "ifft_quotient_map_y vs D = Some (Inr c)" and fe: "\<forall>a\<in>set vs. is_field_element a"
  shows "\<forall>a\<in>set c. is_field_element a"
proof (cases "length vs = 1")
  case True
  then obtain a where "vs = [a]" by (cases vs) auto
  with assms show ?thesis by (auto simp: ifft_quotient_map_y_def)
next
  case False
  with assms(1) obtain f_even factors f_odd half where
    "reconstruct f_even factors f_odd half = Inr c"
    by (auto simp: ifft_quotient_map_y_def Let_def split: sum.splits Option.bind_splits)
  then show ?thesis by (rule reconstruct_field)
qed

lemma field_range: "is_field_element a \<Longrightarrow> 0 \<le> val a \<and> val a < MOD"
  by (simp add: is_field_element_def)

lemma circle_fft_range:
  assumes "circle_fft v D = Some (Inr c)"
  shows "\<forall>e\<in>set c. 0 \<le> e \<and> e < MOD"
proof -
  from assms obtain cs where cs: "fft_quotient_map_y (map FieldElement_init v) D = Some (Inr cs)"
    and c: "c = map val cs"
    by (auto simp: circle_fft_def split: if_splits sum.splits Option.bind_splits)
  have "\<forall>a\<in>set (map FieldElement_init v). is_field_element a" by simp
  from fft_y_field [OF cs this] c show ?thesis by (auto dest: field_range)
qed

lemma circle_ifft_range:
  assumes "circle_ifft v D = Some (Inr c)"
  shows "\<forall>e\<in>set c. 0 \<le> e \<and> e < MOD"
proof -
  from assms obtain cs where cs: "ifft_quotient_map_y (map FieldElement_init v) D = Some (Inr cs)"
    and c: "c = map val cs"
    by (auto simp: circle_ifft_def split: if_splits sum.splits Option.bind_splits)
  have "\<forall>a\<in>set (map FieldElement_init v). is_field_element a" by simp
  from ifft_y_field [OF cs this] c show ?thesis by (auto dest: field_range)
qed

lemma init_cong:
  assumes "length v = length w" "\<forall>i<length v. v ! i mod MOD = w ! i mod MOD"
  shows "map FieldElement_init v = map FieldElement_init w"
  using assms by (intro nth_equalityI) (simp_all add: FieldElement_init_def)

text \<open>
  Claim C10. Both transforms read their input only through its entries reduced modulo
  \<open>MOD\<close>: two vectors of the same length that agree entrywise modulo \<open>MOD\<close> give the same
  result over any domain, and every entry of a returned vector lies in \<open>[0, MOD)\<close>.
\<close>

theorem transforms_reduce_modulo:
  assumes "length v = length w" and "\<forall>i<length v. v ! i mod MOD = w ! i mod MOD"
  shows "circle_fft v D = circle_fft w D \<and> circle_ifft v D = circle_ifft w D \<and>
         (\<forall>c. circle_fft v D = Some (Inr c) \<longrightarrow> (\<forall>e\<in>set c. 0 \<le> e \<and> e < MOD)) \<and>
         (\<forall>c. circle_ifft v D = Some (Inr c) \<longrightarrow> (\<forall>e\<in>set c. 0 \<le> e \<and> e < MOD))"
proof -
  from init_cong [OF assms] have m: "map FieldElement_init v = map FieldElement_init w" .
  have "circle_fft v D = circle_fft w D"
    by (simp add: circle_fft_def m assms(1))
  moreover have "circle_ifft v D = circle_ifft w D"
    by (simp add: circle_ifft_def m assms(1))
  ultimately show ?thesis
    using circle_fft_range circle_ifft_range by blast
qed

theorem transforms_reduce_modulo_witness:
  "length [1, 2, 4, 8, 16, 1, 2, 4 :: int] = length [32, - 29, 35, 8, 47, 1, 2, 4 :: int] \<and>
   map (\<lambda>e. e mod MOD) [1, 2, 4, 8, 16, 1, 2, 4] = map (\<lambda>e. e mod MOD) [32, - 29, 35, 8, 47, 1, 2, 4] \<and>
   circle_fft [32, - 29, 35, 8, 47, 1, 2, 4]
     [CP (FE 24) (FE 18), CP (FE 13) (FE 7), CP (FE 18) (FE 7), CP (FE 7) (FE 18),
      CP (FE 7) (FE 13), CP (FE 18) (FE 24), CP (FE 13) (FE 24), CP (FE 24) (FE 13)]
     = Some (Inr [28, 16, 16, 27, 20, 12, 28, 27]) \<and>
   list_all (\<lambda>e. 0 \<le> e \<and> e < MOD) [28, 16, 16, 27, 20, 12, 28, 27]"
proof -
  let ?v = "[1, 2, 4, 8, 16, 1, 2, 4 :: int]" and ?w = "[32, - 29, 35, 8, 47, 1, 2, 4 :: int]"
  let ?D = "[CP (FE 24) (FE 18), CP (FE 13) (FE 7), CP (FE 18) (FE 7), CP (FE 7) (FE 18),
             CP (FE 7) (FE 13), CP (FE 18) (FE 24), CP (FE 13) (FE 24), CP (FE 24) (FE 13)]"
  have l: "length ?v = length ?w" by simp
  have m: "map (\<lambda>e. e mod MOD) ?v = map (\<lambda>e. e mod MOD) ?w" by (simp add: MOD_def)
  have c: "\<forall>i<length ?v. ?v ! i mod MOD = ?w ! i mod MOD"
  proof (intro allI impI)
    fix i assume "i < length ?v"
    then have "map (\<lambda>e. e mod MOD) ?v ! i = map (\<lambda>e. e mod MOD) ?w ! i"
      by (simp only: m)
    with \<open>i < length ?v\<close> show "?v ! i mod MOD = ?w ! i mod MOD"
      by (simp only: nth_map l [symmetric])
  qed
  have f: "circle_fft ?v ?D = Some (Inr [28, 16, 16, 27, 20, 12, 28, 27])" by code_simp
  from transforms_reduce_modulo [OF l c, of ?D] f
  have "circle_fft ?w ?D = Some (Inr [28, 16, 16, 27, 20, 12, 28, 27])"
    and "\<forall>e\<in>set [28, 16, 16, 27, 20, 12, 28, 27]. 0 \<le> e \<and> e < MOD"
    by (metis, metis)
  with l m show ?thesis by (simp only: list_all_iff) 
qed

text \<open>
  Claim C3, at the input it fails on. The length check \<open>n & (n - 1)\<close> lets the length
  \<open>0\<close> through, so \<open>circle_fft([], [])\<close> and \<open>circle_ifft([], [])\<close> raise no
  \<open>ValueError\<close>: they enter the recursion on the empty list, which does not return.
\<close>

theorem transforms_diverge_on_empty_input:
  "circle_fft [] [] = None \<and> circle_ifft [] [] = None"
  by (simp add: length_check_def circle_fft_def circle_ifft_def fft_quotient_map_y_def
      ifft_quotient_map_y_def even_part_def odd_part_def fft_x_empty ifft_x_empty)

section \<open>The length check\<close>

lemma and_pred_zero_pow2:
  fixes x :: int
  assumes "0 < x" "x AND (x - 1) = 0"
  shows "\<exists>k. x = 2 ^ k"
  using assms
proof (induction "nat x" arbitrary: x rule: less_induct)
  case less
  have r: "x AND (x - 1) = of_bool (odd x \<and> odd (x - 1)) + 2 * ((x div 2) AND ((x - 1) div 2))"
    by (rule and_rec)
  show ?case
  proof (cases "even x")
    case True
    then obtain m where m: "x = 2 * m" by (auto elim: evenE)
    with less.prems(1) have m0: "0 < m" by simp
    have "(x - 1) div 2 = m - 1" using m by simp
    with r less.prems(2) True m have "m AND (m - 1) = 0" by simp
    moreover have "nat m < nat x" using m m0 by simp
    ultimately obtain k where "m = 2 ^ k" using less.hyps [of m] m0 by blast
    with m have "x = 2 ^ Suc k" by simp
    then show ?thesis by blast
  next
    case False
    then obtain m where m: "x = 2 * m + 1" by (auto elim: oddE)
    have "(x - 1) div 2 = m" "x div 2 = m" using m by simp_all
    with r less.prems(2) False have "m = 0" by simp
    with m have "x = 2 ^ 0" by simp
    then show ?thesis by blast
  qed
qed

lemma length_check_iff:
  "length_check n d \<longleftrightarrow> n \<noteq> d \<or> (n \<noteq> 0 \<and> (\<forall>k. n \<noteq> 2 ^ k))"
proof (cases "n = 0")
  case True
  then show ?thesis by (simp add: length_check_def)
next
  case False
  then have p: "0 < int n" by simp
  have "(int n AND (int n - 1) = 0) \<longleftrightarrow> (\<exists>k. n = 2 ^ k)"
  proof
    assume "int n AND (int n - 1) = 0"
    from and_pred_zero_pow2 [OF p this] obtain k where "int n = 2 ^ k" by blast
    then have "int n = int (2 ^ k)" by simp
    then have "n = 2 ^ k" by (simp only: of_nat_eq_iff)
    then show "\<exists>k. n = 2 ^ k" by blast
  next
    assume "\<exists>k. n = 2 ^ k"
    then obtain k where "n = 2 ^ k" by blast
    then show "int n AND (int n - 1) = 0" by (simp add: pow2_and_mask)
  qed
  with False show ?thesis by (auto simp: length_check_def)
qed

lemma map_err_Inl:
  "map_err f xs = Inl e \<Longrightarrow> \<exists>x\<in>set xs. f x = Inl e"
  by (induction xs) (auto split: sum.splits)

lemma fe_truediv_Inl: "fe_truediv a b = Inl e \<Longrightarrow> e = ZeroDivisionError"
  by (auto simp: fe_truediv_def fe_inv_def split: sum.splits if_splits)

lemma nth_err_Inl: "nth_err xs i = Inl e \<Longrightarrow> e = IndexError"
  by (auto simp: nth_err_def split: if_splits)

lemma even_part_Inl:
  assumes "even_part left right two half = Inl e"
  shows "e = IndexError \<or> e = ZeroDivisionError"
proof -
  from map_err_Inl [OF assms [unfolded even_part_def]] obtain i where
    "(case nth_err left i of Inl e \<Rightarrow> Inl e
      | Inr l \<Rightarrow> (case nth_err right i of Inl e \<Rightarrow> Inl e
      | Inr r \<Rightarrow> fe_truediv (fe_add l r) two)) = Inl e"
    by blast
  then show ?thesis
    by (cases "nth_err left i"; cases "nth_err right i")
      (auto dest: fe_truediv_Inl nth_err_Inl)
qed

lemma odd_part_Inl:
  assumes "odd_part left right factors two half = Inl e"
  shows "e = IndexError \<or> e = ZeroDivisionError"
proof -
  from map_err_Inl [OF assms [unfolded odd_part_def]] obtain i where
    "(case nth_err left i of Inl e \<Rightarrow> Inl e
      | Inr l \<Rightarrow> (case nth_err right i of Inl e \<Rightarrow> Inl e
      | Inr r \<Rightarrow> (case nth_err factors i of Inl e \<Rightarrow> Inl e
      | Inr f \<Rightarrow> fe_truediv (fe_sub l r) (fe_mul f two)))) = Inl e"
    by blast
  then show ?thesis
    by (cases "nth_err left i"; cases "nth_err right i"; cases "nth_err factors i")
      (auto dest: fe_truediv_Inl nth_err_Inl)
qed

lemma recon_left_Inl:
  assumes "recon_left f_even factors f_odd half = Inl e"
  shows "e = IndexError"
proof -
  from map_err_Inl [OF assms [unfolded recon_left_def]] obtain i where
    "(case nth_err f_even i of Inl e \<Rightarrow> Inl e
      | Inr a \<Rightarrow> (case nth_err factors i of Inl e \<Rightarrow> Inl e
      | Inr f \<Rightarrow> (case nth_err f_odd i of Inl e \<Rightarrow> Inl e
      | Inr b \<Rightarrow> Inr (fe_add a (fe_mul f b))))) = Inl e"
    by blast
  then show ?thesis
    by (cases "nth_err f_even i"; cases "nth_err factors i"; cases "nth_err f_odd i")
      (auto dest: nth_err_Inl)
qed

lemma recon_right_Inl:
  assumes "recon_right f_even factors f_odd half = Inl e"
  shows "e = IndexError"
proof -
  from map_err_Inl [OF assms [unfolded recon_right_def]] obtain i where
    "(case nth_err f_even i of Inl e \<Rightarrow> Inl e
      | Inr a \<Rightarrow> (case nth_err factors i of Inl e \<Rightarrow> Inl e
      | Inr f \<Rightarrow> (case nth_err f_odd i of Inl e \<Rightarrow> Inl e
      | Inr b \<Rightarrow> Inr (fe_sub a (fe_mul f b))))) = Inl e"
    by blast
  then show ?thesis
    by (cases "nth_err f_even i"; cases "nth_err factors i"; cases "nth_err f_odd i")
      (auto dest: nth_err_Inl)
qed

lemma reconstruct_Inl:
  assumes "reconstruct f_even factors f_odd half = Inl e"
  shows "e = IndexError \<or> e = ZeroDivisionError"
proof -
  from assms consider "recon_left f_even factors f_odd half = Inl e"
    | "recon_right f_even factors f_odd half = Inl e"
    by (auto simp: reconstruct_def split: sum.splits)
  then show ?thesis
    by cases (auto dest: recon_left_Inl recon_right_Inl)
qed

lemma fft_x_errors:
  assumes "fft_squaring_map_x vs xd = Some r"
  shows "\<forall>e. r = Inl e \<longrightarrow> e = IndexError \<or> e = ZeroDivisionError"
proof (rule fft_squaring_map_x.raw_induct
    [where P = "\<lambda>vs xd r. \<forall>e. r = Inl e \<longrightarrow> e = IndexError \<or> e = ZeroDivisionError",
      OF _ assms], goal_cases)
  case (1 f vs xd r)
  note IH = "1"(1) and body = "1"(2)
  show ?case
  proof (intro allI impI)
    fix e assume r: "r = Inl e"
    with body have n1: "length vs \<noteq> 1" by (auto simp: Let_def split: if_splits)
    let ?half = "length vs div 2"
    let ?next = "next_domain xd ?half"
    let ?ev = "even_part (take ?half vs) (rev (drop ?half vs)) (FieldElement_init 2) ?half"
    let ?od = "odd_part (take ?half vs) (rev (drop ?half vs)) (take ?half xd) (FieldElement_init 2) ?half"
    show "e = IndexError \<or> e = ZeroDivisionError"
    proof (cases ?ev)
      case (Inl e')
      with body n1 r have "e' = e" by (simp add: Let_def)
      with Inl even_part_Inl show ?thesis by blast
    next
      case ev: (Inr ev)
      show ?thesis
      proof (cases ?od)
        case (Inl e')
        with body n1 r ev have "e' = e" by (simp add: Let_def)
        with Inl odd_part_Inl show ?thesis by blast
      next
        case od: (Inr od)
        from body n1 ev od obtain r1 where r1: "f ev ?next = Some r1"
          by (auto simp: Let_def split: Option.bind_splits)
        show ?thesis
        proof (cases r1)
          case (Inl e')
          with body n1 r ev od r1 have "e' = e" by (simp add: Let_def)
          with IH [OF r1] Inl show ?thesis by blast
        next
          case ce: (Inr ce)
          from body n1 ev od r1 ce obtain r2 where r2: "f od ?next = Some r2"
            by (auto simp: Let_def split: Option.bind_splits)
          with body n1 r ev od r1 ce have "r2 = Inl e"
            by (auto simp: Let_def split: sum.splits)
          with IH [OF r2] show ?thesis by blast
        qed
      qed
    qed
  qed
qed

lemma ifft_x_errors:
  assumes "ifft_squaring_map_x vs xd = Some r"
  shows "\<forall>e. r = Inl e \<longrightarrow> e = IndexError \<or> e = ZeroDivisionError"
proof (rule ifft_squaring_map_x.raw_induct
    [where P = "\<lambda>vs xd r. \<forall>e. r = Inl e \<longrightarrow> e = IndexError \<or> e = ZeroDivisionError",
      OF _ assms], goal_cases)
  case (1 f vs xd r)
  note IH = "1"(1) and body = "1"(2)
  show ?case
  proof (intro allI impI)
    fix e assume r: "r = Inl e"
    with body have n1: "length vs \<noteq> 1" by (auto simp: Let_def split: if_splits)
    let ?half = "length vs div 2"
    let ?next = "next_domain xd ?half"
    from body n1 obtain r1 where r1: "f (even_index vs) ?next = Some r1"
      by (auto simp: Let_def split: Option.bind_splits)
    show "e = IndexError \<or> e = ZeroDivisionError"
    proof (cases r1)
      case (Inl e')
      with body n1 r r1 have "e' = e" by (simp add: Let_def)
      with IH [OF r1] Inl show ?thesis by blast
    next
      case fe: (Inr f_even)
      from body n1 r1 fe obtain r2 where r2: "f (odd_index vs) ?next = Some r2"
        by (auto simp: Let_def split: Option.bind_splits)
      show ?thesis
      proof (cases r2)
        case (Inl e')
        with body n1 r r1 fe r2 have "e' = e" by (simp add: Let_def)
        with IH [OF r2] Inl show ?thesis by blast
      next
        case (Inr f_odd)
        with body n1 r r1 fe r2
        have "reconstruct f_even (take ?half xd) f_odd ?half = Inl e"
          by (simp add: Let_def)
        then show ?thesis by (rule reconstruct_Inl)
      qed
    qed
  qed
qed

lemma fft_y_errors:
  assumes "fft_quotient_map_y vs D = Some (Inl e)"
  shows "e = IndexError \<or> e = ZeroDivisionError"
proof -
  from assms have n1: "length vs \<noteq> 1"
    by (auto simp: fft_quotient_map_y_def Let_def split: if_splits)
  let ?half = "length vs div 2"
  let ?hx = "take ?half (map pt_x D)"
  let ?ev = "even_part (take ?half vs) (rev (drop ?half vs)) (FieldElement_init 2) ?half"
  let ?od = "odd_part (take ?half vs) (rev (drop ?half vs)) (map pt_y (take ?half D))
               (FieldElement_init 2) ?half"
  show ?thesis
  proof (cases ?ev)
    case (Inl e')
    with assms n1 have "e' = e" by (simp add: fft_quotient_map_y_def Let_def)
    with Inl even_part_Inl show ?thesis by blast
  next
    case ev: (Inr ev)
    show ?thesis
    proof (cases ?od)
      case (Inl e')
      with assms n1 ev have "e' = e" by (simp add: fft_quotient_map_y_def Let_def)
      with Inl odd_part_Inl show ?thesis by blast
    next
      case od: (Inr od)
      from assms n1 ev od obtain r1 where r1: "fft_squaring_map_x ev ?hx = Some r1"
        by (auto simp: fft_quotient_map_y_def Let_def split: Option.bind_splits)
      show ?thesis
      proof (cases r1)
        case (Inl e')
        with assms n1 ev od r1 have "e' = e" by (simp add: fft_quotient_map_y_def Let_def)
        with fft_x_errors [OF r1] Inl show ?thesis by blast
      next
        case ce: (Inr ce)
        from assms n1 ev od r1 ce obtain r2 where r2: "fft_squaring_map_x od ?hx = Some r2"
          by (auto simp: fft_quotient_map_y_def Let_def split: Option.bind_splits)
        with assms n1 ev od r1 ce have "r2 = Inl e"
          by (auto simp: fft_quotient_map_y_def Let_def split: sum.splits)
        with fft_x_errors [OF r2] show ?thesis by blast
      qed
    qed
  qed
qed

lemma ifft_y_errors:
  assumes "ifft_quotient_map_y vs D = Some (Inl e)"
  shows "e = IndexError \<or> e = ZeroDivisionError"
proof -
  from assms have n1: "length vs \<noteq> 1"
    by (auto simp: ifft_quotient_map_y_def Let_def split: if_splits)
  let ?half = "length vs div 2"
  let ?hx = "take ?half (map pt_x D)"
  from assms n1 obtain r1 where r1: "ifft_squaring_map_x (even_index vs) ?hx = Some r1"
    by (auto simp: ifft_quotient_map_y_def Let_def split: Option.bind_splits)
  show ?thesis
  proof (cases r1)
    case (Inl e')
    with assms n1 r1 have "e' = e" by (simp add: ifft_quotient_map_y_def Let_def)
    with ifft_x_errors [OF r1] Inl show ?thesis by blast
  next
    case fe: (Inr f_even)
    from assms n1 r1 fe obtain r2 where r2: "ifft_squaring_map_x (odd_index vs) ?hx = Some r2"
      by (auto simp: ifft_quotient_map_y_def Let_def split: Option.bind_splits)
    show ?thesis
    proof (cases r2)
      case (Inl e')
      with assms n1 r1 fe r2 have "e' = e" by (simp add: ifft_quotient_map_y_def Let_def)
      with ifft_x_errors [OF r2] Inl show ?thesis by blast
    next
      case (Inr f_odd)
      with assms n1 r1 fe r2
      have "reconstruct f_even (map pt_y D) f_odd ?half = Inl e"
        by (simp add: ifft_quotient_map_y_def Let_def)
      then show ?thesis by (rule reconstruct_Inl)
    qed
  qed
qed

text \<open>
  Apart from the empty input, the length check does what its message says: the
  \<open>ValueError\<close> of the length check is the result exactly when the two lengths differ
  or the common length is neither zero nor a power of two.
\<close>

lemma circle_fft_length_error:
  "circle_fft v D = Some (Inl ValueError_Length) \<longleftrightarrow>
     length v \<noteq> length D \<or> (length v \<noteq> 0 \<and> (\<forall>k. length v \<noteq> 2 ^ k))"
proof (cases "length_check (length v) (length D)")
  case True
  then have "circle_fft v D = Some (Inl ValueError_Length)" by (simp add: circle_fft_def)
  with True length_check_iff [of "length v" "length D"] show ?thesis by blast
next
  case False
  have "circle_fft v D \<noteq> Some (Inl ValueError_Length)"
  proof
    assume "circle_fft v D = Some (Inl ValueError_Length)"
    with False have "fft_quotient_map_y (map FieldElement_init v) D = Some (Inl ValueError_Length)"
      by (auto simp: circle_fft_def split: Option.bind_splits sum.splits)
    from fft_y_errors [OF this] show False by simp
  qed
  with False length_check_iff [of "length v" "length D"] show ?thesis by blast
qed

lemma circle_ifft_length_error:
  "circle_ifft c D = Some (Inl ValueError_Length) \<longleftrightarrow>
     length c \<noteq> length D \<or> (length c \<noteq> 0 \<and> (\<forall>k. length c \<noteq> 2 ^ k))"
proof (cases "length_check (length c) (length D)")
  case True
  then have "circle_ifft c D = Some (Inl ValueError_Length)" by (simp add: circle_ifft_def)
  with True length_check_iff [of "length c" "length D"] show ?thesis by blast
next
  case False
  have "circle_ifft c D \<noteq> Some (Inl ValueError_Length)"
  proof
    assume "circle_ifft c D = Some (Inl ValueError_Length)"
    with False have "ifft_quotient_map_y (map FieldElement_init c) D = Some (Inl ValueError_Length)"
      by (auto simp: circle_ifft_def split: Option.bind_splits sum.splits)
    from ifft_y_errors [OF this] show False by simp
  qed
  with False length_check_iff [of "length c" "length D"] show ?thesis by blast
qed

section \<open>Halving a coset by the squaring map\<close>

lemma point_key_inj: "point_key p = point_key q \<Longrightarrow> p = q"
  by (cases p; cases q) (auto simp: point_key_def FieldElement.expand)

lemma update_keyed:
  assumes "list_all keyed d"
  shows "list_all keyed (AList.update (point_key pt) pt d)"
  using assms by (induction d) (auto simp: keyed_def)

lemma update_values:
  assumes "list_all keyed d"
  shows "set (map snd (AList.update (point_key pt) pt d)) = insert pt (set (map snd d))"
  using assms
proof (induction d)
  case Nil
  then show ?case by simp
next
  case (Cons e d)
  show ?case
  proof (cases "fst e = point_key pt")
    case True
    with Cons.prems have "snd e = pt"
      by (auto simp: keyed_def dest: point_key_inj)
    with True show ?thesis by auto
  next
    case False
    with Cons show ?thesis by auto
  qed
qed

lemma fold_update:
  assumes "list_all keyed d" "distinct (map fst d)"
  shows "list_all keyed (fold (\<lambda>pt d. AList.update (point_key pt) pt d) ps d) \<and>
         distinct (map fst (fold (\<lambda>pt d. AList.update (point_key pt) pt d) ps d)) \<and>
         set (map snd (fold (\<lambda>pt d. AList.update (point_key pt) pt d) ps d)) = set ps \<union> set (map snd d)"
  using assms
proof (induction ps arbitrary: d)
  case Nil
  then show ?case by simp
next
  case (Cons p ps)
  let ?d = "AList.update (point_key p) p d"
  have k: "list_all keyed ?d" using Cons.prems(1) by (rule update_keyed)
  have dd: "distinct (map fst ?d)" using Cons.prems(2) by (rule distinct_update)
  from Cons.IH [OF k dd] update_values [OF Cons.prems(1), of p]
  show ?case by auto
qed

lemma keyed_distinct_values:
  assumes "list_all keyed d" "distinct (map fst d)"
  shows "distinct (map snd d)"
proof -
  from assms(1) have "map fst d = map point_key (map snd d)"
    by (induction d) (auto simp: keyed_def)
  with assms(2) show ?thesis by (metis distinct_map)
qed

lemma map_err_set:
  assumes "map_err f xs = Inr ys"
  shows "set ys = {y. \<exists>x\<in>set xs. f x = Inr y}"
proof -
  from assms have l: "length ys = length xs" and n: "\<forall>i<length xs. f (xs ! i) = Inr (ys ! i)"
    by (simp_all add: map_err_Inr_iff)
  show ?thesis
  proof (intro set_eqI iffI)
    fix y assume "y \<in> set ys"
    then obtain i where "i < length ys" "ys ! i = y" by (auto simp: in_set_conv_nth)
    with l n have "xs ! i \<in> set xs" "f (xs ! i) = Inr y" by auto
    then show "y \<in> {y. \<exists>x\<in>set xs. f x = Inr y}" by blast
  next
    fix y assume "y \<in> {y. \<exists>x\<in>set xs. f x = Inr y}"
    then obtain x where "x \<in> set xs" "f x = Inr y" by blast
    then obtain i where "i < length xs" "xs ! i = x" by (auto simp: in_set_conv_nth)
    with n \<open>f x = Inr y\<close> l show "y \<in> set ys" by (auto simp: in_set_conv_nth)
  qed
qed

lemma halve_props:
  assumes "map_err double D = Inr np"
  shows "\<exists>H. halve_standard_position_coset_by_squaring_map D = Inr H \<and>
            length H = length (fold (\<lambda>pt d. AList.update (point_key pt) pt d) np []) \<and>
            distinct H \<and> set H = {S. \<exists>P\<in>set D. double P = Inr S} \<and>
            sorted (map point_key H)"
proof -
  let ?d = "fold (\<lambda>pt d. AList.update (point_key pt) pt d) np []"
  let ?H = "sort_key point_key (map snd ?d)"
  have f: "list_all keyed ?d" "distinct (map fst ?d)" "set (map snd ?d) = set np"
    using fold_update [of "[]" np] by simp_all
  have h: "halve_standard_position_coset_by_squaring_map D = Inr ?H"
    by (simp add: halve_standard_position_coset_by_squaring_map_def assms)
  have "distinct ?H"
    using keyed_distinct_values [OF f(1,2)] by simp
  moreover have "set ?H = {S. \<exists>P\<in>set D. double P = Inr S}"
    using f(3) map_err_set [OF assms] by simp
  moreover have "sorted (map point_key ?H)"
    by (rule sorted_sort_key)
  moreover have "length ?H = length ?d" by simp
  ultimately show ?thesis using h by blast
qed

lemma halve_count_1:
  "case generate_subgroup 1 of Inl e \<Rightarrow> False | Inr G \<Rightarrow>
     list_all (\<lambda>Q. case generate_standard_position_coset Q G of Inl e \<Rightarrow> False | Inr D \<Rightarrow>
        (case map_err double D of Inl e \<Rightarrow> False | Inr np \<Rightarrow>
           2 * length (fold (\<lambda>pt d. AList.update (point_key pt) pt d) np []) = length D))
       all_points"
  by code_simp

lemma halve_count_2:
  "case generate_subgroup 2 of Inl e \<Rightarrow> False | Inr G \<Rightarrow>
     list_all (\<lambda>Q. case generate_standard_position_coset Q G of Inl e \<Rightarrow> False | Inr D \<Rightarrow>
        (case map_err double D of Inl e \<Rightarrow> False | Inr np \<Rightarrow>
           2 * length (fold (\<lambda>pt d. AList.update (point_key pt) pt d) np []) = length D))
       all_points"
  by code_simp

lemma halve_count_3:
  "case generate_subgroup 3 of Inl e \<Rightarrow> False | Inr G \<Rightarrow>
     list_all (\<lambda>Q. case generate_standard_position_coset Q G of Inl e \<Rightarrow> False | Inr D \<Rightarrow>
        (case map_err double D of Inl e \<Rightarrow> False | Inr np \<Rightarrow>
           2 * length (fold (\<lambda>pt d. AList.update (point_key pt) pt d) np []) = length D))
       all_points"
  by code_simp

lemma halve_count_4:
  "case generate_subgroup 4 of Inl e \<Rightarrow> False | Inr G \<Rightarrow>
     list_all (\<lambda>Q. case generate_standard_position_coset Q G of Inl e \<Rightarrow> False | Inr D \<Rightarrow>
        (case map_err double D of Inl e \<Rightarrow> False | Inr np \<Rightarrow>
           2 * length (fold (\<lambda>pt d. AList.update (point_key pt) pt d) np []) = length D))
       all_points"
  by code_simp

lemma halve_count_5:
  "case generate_subgroup 5 of Inl e \<Rightarrow> False | Inr G \<Rightarrow>
     list_all (\<lambda>Q. case generate_standard_position_coset Q G of Inl e \<Rightarrow> False | Inr D \<Rightarrow>
        (case map_err double D of Inl e \<Rightarrow> False | Inr np \<Rightarrow>
           2 * length (fold (\<lambda>pt d. AList.update (point_key pt) pt d) np []) = length D))
       all_points"
  by code_simp

lemma halve_case:
  assumes chk: "case generate_subgroup n of Inl e \<Rightarrow> False | Inr G \<Rightarrow>
     list_all (\<lambda>Q. case generate_standard_position_coset Q G of Inl e \<Rightarrow> False | Inr D \<Rightarrow>
        (case map_err double D of Inl e \<Rightarrow> False | Inr np \<Rightarrow>
           2 * length (fold (\<lambda>pt d. AList.update (point_key pt) pt d) np []) = length D))
       all_points"
    and g: "generate_subgroup n = Inr G" and d: "generate_standard_position_coset Q G = Inr D"
    and q: "Q \<in> set all_points"
  shows "\<exists>H. halve_standard_position_coset_by_squaring_map D = Inr H \<and>
            2 * length H = length D \<and> distinct H \<and>
            set H = {S. \<exists>P\<in>set D. double P = Inr S} \<and> sorted (map point_key H)"
proof -
  from chk g q d
  have "case map_err double D of Inl e \<Rightarrow> False | Inr np \<Rightarrow>
           2 * length (fold (\<lambda>pt d. AList.update (point_key pt) pt d) np []) = length D"
    by (auto simp: list_all_iff)
  then obtain np where np: "map_err double D = Inr np"
    and l: "2 * length (fold (\<lambda>pt d. AList.update (point_key pt) pt d) np []) = length D"
    by (cases "map_err double D") auto
  from halve_props [OF np] l show ?thesis by auto
qed

lemma subgroup_range:
  assumes "generate_subgroup n = Inr G"
  shows "n = 0 \<or> n = 1 \<or> n = 2 \<or> n = 3 \<or> n = 4 \<or> n = 5"
proof -
  from assms have n0: "0 \<le> n" and m: "(32::int) mod 2 ^ nat n = 0"
    by (auto simp: generate_subgroup_def get_nth_generator_def shl1_def MOD_def
        split: if_splits sum.splits)
  have "nat n \<le> 5"
  proof (rule ccontr)
    assume "\<not> nat n \<le> 5"
    then have "6 \<le> nat n" by simp
    then have "(2::int) ^ 6 \<le> 2 ^ nat n" by (intro power_increasing) simp_all
    then have "(32::int) < 2 ^ nat n" by simp
    then have "(32::int) mod 2 ^ nat n = 32" by simp
    with m show False by simp
  qed
  with n0 show ?thesis by presburger
qed

text \<open>
  Claim C6. For every standard-position coset \<open>D\<close> of a circle point and
  \<open>generate_subgroup(n)\<close> with \<open>n \<ge> 1\<close>, the halving routine returns exactly
  \<open>len(D) / 2\<close> pairwise distinct points: as a set the image of \<open>D\<close> under the squaring
  map, listed in ascending order of \<open>(x.value, y.value)\<close>.
\<close>

theorem halving_gives_sorted_image:
  assumes q: "is_circle_point Q" and n: "1 \<le> n"
    and g: "generate_subgroup n = Inr G" and d: "generate_standard_position_coset Q G = Inr D"
  shows "\<exists>H. halve_standard_position_coset_by_squaring_map D = Inr H \<and>
            2 * length H = length D \<and> distinct H \<and>
            set H = {S. \<exists>P\<in>set D. double P = Inr S} \<and> sorted (map point_key H)"
proof -
  from q have qa: "Q \<in> set all_points" by (rule in_all_points)
  from subgroup_range [OF g] n
  consider "n = 1" | "n = 2" | "n = 3" | "n = 4" | "n = 5" by auto
  then show ?thesis
  proof cases
    case 1
    show ?thesis by (rule halve_case [OF halve_count_1 g [unfolded 1] d qa])
  next
    case 2
    show ?thesis by (rule halve_case [OF halve_count_2 g [unfolded 2] d qa])
  next
    case 3
    show ?thesis by (rule halve_case [OF halve_count_3 g [unfolded 3] d qa])
  next
    case 4
    show ?thesis by (rule halve_case [OF halve_count_4 g [unfolded 4] d qa])
  next
    case 5
    show ?thesis by (rule halve_case [OF halve_count_5 g [unfolded 5] d qa])
  qed
qed

theorem halving_gives_sorted_image_witness:
  "is_circle_point (CP (FE 13) (FE 7)) \<and> (1::int) \<le> 3 \<and>
   generate_subgroup 3 =
     Inr [CP (FE 1) (FE 0), CP (FE 4) (FE 27), CP (FE 0) (FE 30), CP (FE 27) (FE 27),
          CP (FE 30) (FE 0), CP (FE 27) (FE 4), CP (FE 0) (FE 1), CP (FE 4) (FE 4)] \<and>
   generate_standard_position_coset (CP (FE 13) (FE 7))
     [CP (FE 1) (FE 0), CP (FE 4) (FE 27), CP (FE 0) (FE 30), CP (FE 27) (FE 27),
      CP (FE 30) (FE 0), CP (FE 27) (FE 4), CP (FE 0) (FE 1), CP (FE 4) (FE 4)] =
     Inr [CP (FE 13) (FE 7), CP (FE 18) (FE 7), CP (FE 7) (FE 18), CP (FE 7) (FE 13),
          CP (FE 18) (FE 24), CP (FE 13) (FE 24), CP (FE 24) (FE 13), CP (FE 24) (FE 18)] \<and>
   halve_standard_position_coset_by_squaring_map
     [CP (FE 13) (FE 7), CP (FE 18) (FE 7), CP (FE 7) (FE 18), CP (FE 7) (FE 13),
      CP (FE 18) (FE 24), CP (FE 13) (FE 24), CP (FE 24) (FE 13), CP (FE 24) (FE 18)] =
     Inr [CP (FE 4) (FE 4), CP (FE 4) (FE 27), CP (FE 27) (FE 4), CP (FE 27) (FE 27)] \<and>
   (\<exists>H. halve_standard_position_coset_by_squaring_map
          [CP (FE 13) (FE 7), CP (FE 18) (FE 7), CP (FE 7) (FE 18), CP (FE 7) (FE 13),
           CP (FE 18) (FE 24), CP (FE 13) (FE 24), CP (FE 24) (FE 13), CP (FE 24) (FE 18)] = Inr H \<and>
        2 * length H = 8 \<and> distinct H \<and> sorted (map point_key H))"
proof -
  let ?Q = "CP (FE 13) (FE 7)"
  let ?G = "[CP (FE 1) (FE 0), CP (FE 4) (FE 27), CP (FE 0) (FE 30), CP (FE 27) (FE 27),
             CP (FE 30) (FE 0), CP (FE 27) (FE 4), CP (FE 0) (FE 1), CP (FE 4) (FE 4)]"
  let ?D = "[CP (FE 13) (FE 7), CP (FE 18) (FE 7), CP (FE 7) (FE 18), CP (FE 7) (FE 13),
             CP (FE 18) (FE 24), CP (FE 13) (FE 24), CP (FE 24) (FE 13), CP (FE 24) (FE 18)]"
  have q: "is_circle_point ?Q" by code_simp
  have n: "(1::int) \<le> 3" by simp
  have g: "generate_subgroup 3 = Inr ?G" by code_simp
  have d: "generate_standard_position_coset ?Q ?G = Inr ?D" by code_simp
  have h: "halve_standard_position_coset_by_squaring_map ?D =
             Inr [CP (FE 4) (FE 4), CP (FE 4) (FE 27), CP (FE 27) (FE 4), CP (FE 27) (FE 27)]"
    by code_simp
  from halving_gives_sorted_image [OF q n g d]
  have "\<exists>H. halve_standard_position_coset_by_squaring_map ?D = Inr H \<and>
            2 * length H = 8 \<and> distinct H \<and> sorted (map point_key H)"
    by auto
  with q g d h show ?thesis by simp
qed

section \<open>Standard-position cosets as transform domains\<close>

lemma subgroup_5: "generate_subgroup 5 = Inr all_points"
  by code_simp

lemma coset_domain_ok_0:
  "case generate_subgroup 0 of
     Inr G \<Rightarrow> length G = 2 ^ 0 \<and> list_all (\<lambda>Q.
        (case generate_standard_position_coset Q G of
           Inr D \<Rightarrow> domain_ok 0 D
         | Inl e \<Rightarrow> False)) all_points
   | Inl e \<Rightarrow> False"
  by code_simp

lemma coset_domain_ok_1:
  "case generate_subgroup 1 of
     Inr G \<Rightarrow> length G = 2 ^ 1 \<and> list_all (\<lambda>Q. Q \<in> set G \<or>
        (case generate_standard_position_coset Q G of
           Inr D \<Rightarrow> domain_ok 1 D
         | Inl e \<Rightarrow> False)) all_points
   | Inl e \<Rightarrow> False"
  by code_simp

lemma coset_domain_ok_2:
  "case generate_subgroup 2 of
     Inr G \<Rightarrow> length G = 2 ^ 2 \<and> list_all (\<lambda>Q. Q \<in> set G \<or>
        (case generate_standard_position_coset Q G of
           Inr D \<Rightarrow> domain_ok 2 D
         | Inl e \<Rightarrow> False)) all_points
   | Inl e \<Rightarrow> False"
  by code_simp

lemma coset_domain_ok_3:
  "case generate_subgroup 3 of
     Inr G \<Rightarrow> length G = 2 ^ 3 \<and> list_all (\<lambda>Q. Q \<in> set G \<or>
        (case generate_standard_position_coset Q G of
           Inr D \<Rightarrow> domain_ok 3 D
         | Inl e \<Rightarrow> False)) all_points
   | Inl e \<Rightarrow> False"
  by code_simp

lemma coset_domain_ok_4:
  "case generate_subgroup 4 of
     Inr G \<Rightarrow> length G = 2 ^ 4 \<and> list_all (\<lambda>Q. Q \<in> set G \<or>
        (case generate_standard_position_coset Q G of
           Inr D \<Rightarrow> domain_ok 4 D
         | Inl e \<Rightarrow> False)) all_points
   | Inl e \<Rightarrow> False"
  by code_simp

lemma coset_length:
  "generate_standard_position_coset Q G = Inr D \<Longrightarrow> length D = length G"
  by (simp add: generate_standard_position_coset_def map_err_Inr_iff)

lemma coset_roundtrip:
  assumes len: "length G = 2 ^ k"
    and enum: "list_all (\<lambda>Q. Q \<in> set G' \<or>
        (case generate_standard_position_coset Q G of
           Inr D \<Rightarrow> domain_ok k D | Inl e \<Rightarrow> False)) all_points"
    and q: "Q \<in> set all_points" and nq: "Q \<notin> set G'"
  shows "\<exists>D. generate_standard_position_coset Q G = Inr D \<and> length D = length G \<and>
           (\<forall>v. length v = length D \<and> (\<forall>e\<in>set v. 0 \<le> e \<and> e < MOD) \<longrightarrow>
              (\<exists>c. circle_fft v D = Some (Inr c) \<and> circle_ifft c D = Some (Inr v)))"
proof -
  from enum q nq
  have "case generate_standard_position_coset Q G of Inr D \<Rightarrow> domain_ok k D | Inl e \<Rightarrow> False"
    unfolding list_all_iff by blast
  then obtain D where D: "generate_standard_position_coset Q G = Inr D" and ok: "domain_ok k D"
    by (cases "generate_standard_position_coset Q G") auto
  from coset_length [OF D] len have lD: "length D = 2 ^ k" by simp
  have "\<exists>c. circle_fft v D = Some (Inr c) \<and> circle_ifft c D = Some (Inr v)"
    if "length v = length D" "\<forall>e\<in>set v. 0 \<le> e \<and> e < MOD" for v
    using circle_roundtrip [OF _ lD ok that(2)] that(1) lD by simp
  with D coset_length [OF D] show ?thesis by blast
qed

text \<open>
  Claim C1, amended. Let \<open>Q\<close> be a circle point and \<open>G = generate_subgroup(n)\<close>, with
  \<open>Q\<close> outside \<open>G\<close> unless \<open>n = 0\<close>. Then the standard-position coset \<open>D\<close> of \<open>Q\<close> and
  \<open>G\<close> exists, and for every vector \<open>v\<close> of \<open>len(D)\<close> field elements \<open>circle_fft(v, D)\<close>
  returns a vector \<open>c\<close> with \<open>circle_ifft(c, D) = v\<close>, exactly.
\<close>

theorem circle_ifft_inverts_circle_fft:
  assumes q: "is_circle_point Q" and g: "generate_subgroup n = Inr G"
    and nq: "n = 0 \<or> Q \<notin> set G"
  shows "\<exists>D. generate_standard_position_coset Q G = Inr D \<and> length D = length G \<and>
           (\<forall>v. length v = length D \<and> (\<forall>e\<in>set v. 0 \<le> e \<and> e < MOD) \<longrightarrow>
              (\<exists>c. circle_fft v D = Some (Inr c) \<and> circle_ifft c D = Some (Inr v)))"
proof -
  from q have qa: "Q \<in> set all_points" by (rule in_all_points)
  have e: "Q \<notin> set ([] :: CirclePoint list)" by simp
  from subgroup_range [OF g]
  consider "n = 0" | "n = 1" | "n = 2" | "n = 3" | "n = 4" | "n = 5" by blast
  then show ?thesis
  proof cases
    case 1
    with coset_domain_ok_0 g have "length G = 2 ^ 0"
      and "list_all (\<lambda>Q. Q \<in> set ([] :: CirclePoint list) \<or>
        (case generate_standard_position_coset Q G of
           Inr D \<Rightarrow> domain_ok 0 D | Inl e \<Rightarrow> False)) all_points"
      by simp_all
    from coset_roundtrip [OF this qa e] show ?thesis .
  next
    case 2
    with coset_domain_ok_1 g nq have "length G = 2 ^ 1"
      and "list_all (\<lambda>Q. Q \<in> set G \<or>
        (case generate_standard_position_coset Q G of
           Inr D \<Rightarrow> domain_ok 1 D | Inl e \<Rightarrow> False)) all_points"
      and "Q \<notin> set G"
      by simp_all
    from coset_roundtrip [OF this(1,2) qa this(3)] show ?thesis .
  next
    case 3
    with coset_domain_ok_2 g nq have "length G = 2 ^ 2"
      and "list_all (\<lambda>Q. Q \<in> set G \<or>
        (case generate_standard_position_coset Q G of
           Inr D \<Rightarrow> domain_ok 2 D | Inl e \<Rightarrow> False)) all_points"
      and "Q \<notin> set G"
      by simp_all
    from coset_roundtrip [OF this(1,2) qa this(3)] show ?thesis .
  next
    case 4
    with coset_domain_ok_3 g nq have "length G = 2 ^ 3"
      and "list_all (\<lambda>Q. Q \<in> set G \<or>
        (case generate_standard_position_coset Q G of
           Inr D \<Rightarrow> domain_ok 3 D | Inl e \<Rightarrow> False)) all_points"
      and "Q \<notin> set G"
      by simp_all
    from coset_roundtrip [OF this(1,2) qa this(3)] show ?thesis .
  next
    case 5
    with coset_domain_ok_4 g nq have "length G = 2 ^ 4"
      and "list_all (\<lambda>Q. Q \<in> set G \<or>
        (case generate_standard_position_coset Q G of
           Inr D \<Rightarrow> domain_ok 4 D | Inl e \<Rightarrow> False)) all_points"
      and "Q \<notin> set G"
      by simp_all
    from coset_roundtrip [OF this(1,2) qa this(3)] show ?thesis .
  next
    case 6
    with g subgroup_5 have "G = all_points" by simp
    with nq qa 6 show ?thesis by simp
  qed
qed

theorem circle_ifft_inverts_circle_fft_witness:
  "is_circle_point (CP (FE 24) (FE 18)) \<and>
   generate_subgroup 3 =
     Inr [CP (FE 1) (FE 0), CP (FE 4) (FE 27), CP (FE 0) (FE 30), CP (FE 27) (FE 27),
          CP (FE 30) (FE 0), CP (FE 27) (FE 4), CP (FE 0) (FE 1), CP (FE 4) (FE 4)] \<and>
   CP (FE 24) (FE 18) \<notin>
     set [CP (FE 1) (FE 0), CP (FE 4) (FE 27), CP (FE 0) (FE 30), CP (FE 27) (FE 27),
          CP (FE 30) (FE 0), CP (FE 27) (FE 4), CP (FE 0) (FE 1), CP (FE 4) (FE 4)] \<and>
   (\<exists>D. generate_standard_position_coset (CP (FE 24) (FE 18))
          [CP (FE 1) (FE 0), CP (FE 4) (FE 27), CP (FE 0) (FE 30), CP (FE 27) (FE 27),
           CP (FE 30) (FE 0), CP (FE 27) (FE 4), CP (FE 0) (FE 1), CP (FE 4) (FE 4)] = Inr D \<and>
        length D = 8 \<and>
        (\<exists>c. circle_fft [3, 1, 4, 1, 5, 9, 2, 6] D = Some (Inr c) \<and>
             circle_ifft c D = Some (Inr [3, 1, 4, 1, 5, 9, 2, 6])))"
proof -
  let ?Q = "CP (FE 24) (FE 18)"
  let ?G = "[CP (FE 1) (FE 0), CP (FE 4) (FE 27), CP (FE 0) (FE 30), CP (FE 27) (FE 27),
             CP (FE 30) (FE 0), CP (FE 27) (FE 4), CP (FE 0) (FE 1), CP (FE 4) (FE 4)]"
  have q: "is_circle_point ?Q" by code_simp
  have g: "generate_subgroup 3 = Inr ?G" by code_simp
  have nq: "?Q \<notin> set ?G" by simp
  then have nq': "(3::int) = 0 \<or> ?Q \<notin> set ?G" by simp
  from circle_ifft_inverts_circle_fft [OF q g nq']
  obtain D where D: "generate_standard_position_coset ?Q ?G = Inr D" "length D = length ?G"
    and all: "\<forall>v. length v = length D \<and> (\<forall>e\<in>set v. 0 \<le> e \<and> e < MOD) \<longrightarrow>
              (\<exists>c. circle_fft v D = Some (Inr c) \<and> circle_ifft c D = Some (Inr v))"
    by blast
  have "length [3, 1, 4, 1, 5, 9, 2, 6 :: int] = length D \<and>
        (\<forall>e\<in>set [3, 1, 4, 1, 5, 9, 2, 6 :: int]. 0 \<le> e \<and> e < MOD)"
    using D(2) by (simp add: MOD_def)
  with all have "\<exists>c. circle_fft [3, 1, 4, 1, 5, 9, 2, 6] D = Some (Inr c) \<and>
             circle_ifft c D = Some (Inr [3, 1, 4, 1, 5, 9, 2, 6])"
    by blast
  with q g nq D show ?thesis by simp
qed

text \<open>
  The claim as stated fails when the coset point lies in the subgroup: the coset of the
  identity and \<open>generate_subgroup(1)\<close> contains a point with \<open>y = 0\<close> in its first
  half, and the forward transform stops with \<open>ZeroDivisionError\<close>.
\<close>

theorem roundtrip_fails_on_subgroup_coset:
  "identity = Inr (CP (FE 1) (FE 0)) \<and>
   generate_subgroup 1 = Inr [CP (FE 1) (FE 0), CP (FE 30) (FE 0)] \<and>
   generate_standard_position_coset (CP (FE 1) (FE 0)) [CP (FE 1) (FE 0), CP (FE 30) (FE 0)]
     = Inr [CP (FE 1) (FE 0), CP (FE 30) (FE 0)] \<and>
   circle_fft [1, 2] [CP (FE 1) (FE 0), CP (FE 30) (FE 0)] = Some (Inl ZeroDivisionError)"
proof -
  have a: "identity = Inr (CP (FE 1) (FE 0))" by code_simp
  have b: "generate_subgroup 1 = Inr [CP (FE 1) (FE 0), CP (FE 30) (FE 0)]" by code_simp
  have c: "generate_standard_position_coset (CP (FE 1) (FE 0)) [CP (FE 1) (FE 0), CP (FE 30) (FE 0)]
     = Inr [CP (FE 1) (FE 0), CP (FE 30) (FE 0)]" by code_simp
  have d: "circle_fft [1, 2] [CP (FE 1) (FE 0), CP (FE 30) (FE 0)] = Some (Inl ZeroDivisionError)"
    by code_simp
  from a b c d show ?thesis by simp
qed

section \<open>Cosets of a point of the subgroup\<close>

lemma map_err_first_error:
  assumes "\<exists>x\<in>set xs. f x = Inl e" and "\<forall>x\<in>set xs. f x = Inl e \<or> (\<exists>y. f x = Inr y)"
  shows "map_err f xs = Inl e"
  using assms
proof (induction xs)
  case Nil
  then show ?case by simp
next
  case (Cons a as)
  show ?case
  proof (cases "f a")
    case (Inl e')
    with Cons.prems(2) have "e' = e" by auto
    with Inl show ?thesis by simp
  next
    case (Inr b)
    with Cons.prems have "\<exists>x\<in>set as. f x = Inl e" by auto
    with Cons.IH Cons.prems(2) have "map_err f as = Inl e" by simp
    with Inr show ?thesis by simp
  qed
qed

lemma fe_truediv_cases:
  "fe_truediv a b = Inl ZeroDivisionError \<or> (\<exists>q. fe_truediv a b = Inr q)"
  by (simp add: fe_truediv_def fe_inv_def)

lemma fe_truediv_zero: "val b = 0 \<Longrightarrow> fe_truediv a b = Inl ZeroDivisionError"
  by (simp add: fe_truediv_def fe_inv_def)

lemma odd_part_zero:
  assumes ll: "length left = half" and lr: "length right = half" and lf: "half \<le> length factors"
    and z: "list_ex (\<lambda>f. val (fe_mul f (FE 2)) = 0) (take half factors)"
  shows "odd_part left right factors (FE 2) half = Inl ZeroDivisionError"
  unfolding odd_part_def
proof (rule map_err_first_error)
  from z obtain f where "f \<in> set (take half factors)" "val (fe_mul f (FE 2)) = 0"
    by (auto simp: list_ex_iff)
  then obtain i where i: "i < half" "factors ! i = f"
    using lf by (auto simp: in_set_conv_nth)
  with ll lr lf \<open>val (fe_mul f (FE 2)) = 0\<close>
  have "(case nth_err left i of Inl e \<Rightarrow> Inl e
      | Inr l \<Rightarrow> (case nth_err right i of Inl e \<Rightarrow> Inl e
      | Inr r \<Rightarrow> (case nth_err factors i of Inl e \<Rightarrow> Inl e
      | Inr f \<Rightarrow> fe_truediv (fe_sub l r) (fe_mul f (FE 2))))) = Inl ZeroDivisionError"
    by (simp add: fe_truediv_zero)
  with i(1) show "\<exists>x\<in>set [0..<half]. (case nth_err left x of Inl e \<Rightarrow> Inl e
      | Inr l \<Rightarrow> (case nth_err right x of Inl e \<Rightarrow> Inl e
      | Inr r \<Rightarrow> (case nth_err factors x of Inl e \<Rightarrow> Inl e
      | Inr f \<Rightarrow> fe_truediv (fe_sub l r) (fe_mul f (FE 2))))) = Inl ZeroDivisionError"
    by auto
next
  show "\<forall>x\<in>set [0..<half]. (case nth_err left x of Inl e \<Rightarrow> Inl e
      | Inr l \<Rightarrow> (case nth_err right x of Inl e \<Rightarrow> Inl e
      | Inr r \<Rightarrow> (case nth_err factors x of Inl e \<Rightarrow> Inl e
      | Inr f \<Rightarrow> fe_truediv (fe_sub l r) (fe_mul f (FE 2))))) = Inl ZeroDivisionError \<or>
     (\<exists>y. (case nth_err left x of Inl e \<Rightarrow> Inl e
      | Inr l \<Rightarrow> (case nth_err right x of Inl e \<Rightarrow> Inl e
      | Inr r \<Rightarrow> (case nth_err factors x of Inl e \<Rightarrow> Inl e
      | Inr f \<Rightarrow> fe_truediv (fe_sub l r) (fe_mul f (FE 2))))) = Inr y)"
    using ll lr lf fe_truediv_cases by simp
qed

lemma even_part_total:
  assumes ll: "length left = half" and lr: "length right = half"
  shows "\<exists>ev. even_part left right (FE 2) half = Inr ev"
proof -
  have "\<forall>i<half. \<exists>y. (case nth_err left i of Inl e \<Rightarrow> Inl e
            | Inr l \<Rightarrow> (case nth_err right i of Inl e \<Rightarrow> Inl e
            | Inr r \<Rightarrow> fe_truediv (fe_add l r) (FE 2))) = Inr y \<and> True"
    using ll lr by (simp add: div_two)
  from map_err_upt_ex [OF this] show ?thesis
    unfolding even_part_def by blast
qed

lemma zero_divisor_fails:
  assumes lv: "length v = 2 * half" and lD: "length D = 2 * half" and h: "0 < half"
    and z: "list_ex (\<lambda>f. val (fe_mul f (FE 2)) = 0) (map pt_y (take half D))"
    and p: "length_check (2 * half) (2 * half) = False"
  shows "circle_fft v D = Some (Inl ZeroDivisionError)"
proof -
  let ?arr = "map FieldElement_init v"
  have la: "length ?arr = 2 * half" using lv by simp
  have n1: "length ?arr \<noteq> Suc 0" using la by presburger
  have hd: "length ?arr div 2 = half" using la by simp
  let ?left = "take half ?arr" and ?right = "rev (drop half ?arr)"
  let ?yf = "map pt_y (take half D)"
  have ll: "length ?left = half" and lr: "length ?right = half" using la by simp_all
  have lf: "half \<le> length ?yf" using lD by simp
  from even_part_total [OF ll lr] obtain ev where
    ev: "even_part ?left ?right (FE 2) half = Inr ev" by blast
  have "take half ?yf = ?yf" by simp
  with z have z': "list_ex (\<lambda>f. val (fe_mul f (FE 2)) = 0) (take half ?yf)" by simp
  have od: "odd_part ?left ?right ?yf (FE 2) half = Inl ZeroDivisionError"
    using ll lr lf z' by (rule odd_part_zero)
  have "fft_quotient_map_y ?arr D = Some (Inl ZeroDivisionError)"
    using ev od by (simp add: fft_quotient_map_y_def Let_def n1 hd two_eq del: length_map)
  then show ?thesis
    using p lv lD by (simp add: circle_fft_def)
qed

lemma coset_zero_divisor_1:
  "case generate_subgroup 1 of
     Inr G \<Rightarrow> length G = 2 * 2 ^ 0 \<and> list_all (\<lambda>Q. if Q \<in> set G then
        (case generate_standard_position_coset Q G of
           Inr D \<Rightarrow> list_ex (\<lambda>f. val (fe_mul f (FE 2)) = 0) (map pt_y (take (2 ^ 0) D))
         | Inl e \<Rightarrow> False) else True) all_points
   | Inl e \<Rightarrow> False"
  by code_simp

lemma coset_zero_divisor_2:
  "case generate_subgroup 2 of
     Inr G \<Rightarrow> length G = 2 * 2 ^ 1 \<and> list_all (\<lambda>Q. if Q \<in> set G then
        (case generate_standard_position_coset Q G of
           Inr D \<Rightarrow> list_ex (\<lambda>f. val (fe_mul f (FE 2)) = 0) (map pt_y (take (2 ^ 1) D))
         | Inl e \<Rightarrow> False) else True) all_points
   | Inl e \<Rightarrow> False"
  by code_simp

lemma coset_zero_divisor_3:
  "case generate_subgroup 3 of
     Inr G \<Rightarrow> length G = 2 * 2 ^ 2 \<and> list_all (\<lambda>Q. if Q \<in> set G then
        (case generate_standard_position_coset Q G of
           Inr D \<Rightarrow> list_ex (\<lambda>f. val (fe_mul f (FE 2)) = 0) (map pt_y (take (2 ^ 2) D))
         | Inl e \<Rightarrow> False) else True) all_points
   | Inl e \<Rightarrow> False"
  by code_simp

lemma coset_zero_divisor_4:
  "case generate_subgroup 4 of
     Inr G \<Rightarrow> length G = 2 * 2 ^ 3 \<and> list_all (\<lambda>Q. if Q \<in> set G then
        (case generate_standard_position_coset Q G of
           Inr D \<Rightarrow> list_ex (\<lambda>f. val (fe_mul f (FE 2)) = 0) (map pt_y (take (2 ^ 3) D))
         | Inl e \<Rightarrow> False) else True) all_points
   | Inl e \<Rightarrow> False"
  by code_simp

lemma coset_zero_divisor_5:
  "case generate_subgroup 5 of
     Inr G \<Rightarrow> length G = 2 * 2 ^ 4 \<and> list_all (\<lambda>Q. if Q \<in> set G then
        (case generate_standard_position_coset Q G of
           Inr D \<Rightarrow> list_ex (\<lambda>f. val (fe_mul f (FE 2)) = 0) (map pt_y (take (2 ^ 4) D))
         | Inl e \<Rightarrow> False) else True) all_points
   | Inl e \<Rightarrow> False"
  by code_simp

lemma coset_fails:
  assumes chk: "case generate_subgroup n of
     Inr G \<Rightarrow> length G = 2 * 2 ^ j \<and> list_all (\<lambda>Q. if Q \<in> set G then
        (case generate_standard_position_coset Q G of
           Inr D \<Rightarrow> list_ex (\<lambda>f. val (fe_mul f (FE 2)) = 0) (map pt_y (take (2 ^ j) D))
         | Inl e \<Rightarrow> False) else True) all_points
   | Inl e \<Rightarrow> False"
    and g: "generate_subgroup n = Inr G" and q: "Q \<in> set all_points" and qg: "Q \<in> set G"
    and d: "generate_standard_position_coset Q G = Inr D" and lv: "length v = length D"
  shows "circle_fft v D = Some (Inl ZeroDivisionError)"
proof -
  from chk g have lg: "length G = 2 * 2 ^ j" by simp
  from chk g q qg d have z: "list_ex (\<lambda>f. val (fe_mul f (FE 2)) = 0) (map pt_y (take (2 ^ j) D))"
    by (auto simp: list_all_iff)
  from coset_length [OF d] lg have lD: "length D = 2 * 2 ^ j" by simp
  have "length_check (2 ^ Suc j) (2 ^ Suc j) = False" by (rule length_check_pow2)
  then have p: "length_check (2 * 2 ^ j) (2 * 2 ^ j) = False" by simp
  show ?thesis
    by (rule zero_divisor_fails [OF _ lD _ z p]) (simp_all add: lv lD)
qed

text \<open>
  The condition of the round trip cannot be dropped: when the coset point lies in the
  subgroup and the subgroup has more than one element, the forward transform stops with
  \<open>ZeroDivisionError\<close> on every vector of the domain's length.
\<close>

lemma circle_fft_fails_on_subgroup_coset:
  assumes q: "is_circle_point Q" and n: "1 \<le> n"
    and g: "generate_subgroup n = Inr G" and qg: "Q \<in> set G"
    and d: "generate_standard_position_coset Q G = Inr D" and lv: "length v = length D"
  shows "circle_fft v D = Some (Inl ZeroDivisionError)"
proof -
  from q have qa: "Q \<in> set all_points" by (rule in_all_points)
  from subgroup_range [OF g] n
  consider "n = 1" | "n = 2" | "n = 3" | "n = 4" | "n = 5" by auto
  then show ?thesis
  proof cases
    case 1
    show ?thesis by (rule coset_fails [OF coset_zero_divisor_1 g [unfolded 1] qa qg d lv])
  next
    case 2
    show ?thesis by (rule coset_fails [OF coset_zero_divisor_2 g [unfolded 2] qa qg d lv])
  next
    case 3
    show ?thesis by (rule coset_fails [OF coset_zero_divisor_3 g [unfolded 3] qa qg d lv])
  next
    case 4
    show ?thesis by (rule coset_fails [OF coset_zero_divisor_4 g [unfolded 4] qa qg d lv])
  next
    case 5
    show ?thesis by (rule coset_fails [OF coset_zero_divisor_5 g [unfolded 5] qa qg d lv])
  qed
qed

section \<open>The circle group\<close>



lemma double_eq_add_enum: "list_all (\<lambda>P. double P = add P P) all_points"
  by code_simp

lemma double_closed_enum:
  "list_all (\<lambda>P. case double P of Inr S \<Rightarrow> S \<in> set all_points | Inl e \<Rightarrow> False) all_points"
  by code_simp

lemma inverse_closed_enum:
  "list_all (\<lambda>P. case inverse_pt P of Inr S \<Rightarrow> S \<in> set all_points | Inl e \<Rightarrow> False) all_points"
  by code_simp

lemma add_closed_enum:
  "list_all (\<lambda>P. list_all (\<lambda>R. case add P R of Inr S \<Rightarrow> S \<in> set all_points | Inl e \<Rightarrow> False)
      all_points) all_points"
  by code_simp

lemma add_closed:
  assumes "P \<in> set all_points" "R \<in> set all_points"
  shows "\<exists>S \<in> set all_points. add P R = Inr S"
proof -
  from add_closed_enum assms
  have "case add P R of Inr S \<Rightarrow> S \<in> set all_points | Inl e \<Rightarrow> False"
    unfolding list_all_iff by blast
  then show ?thesis by (cases "add P R") auto
qed

lemma double_closed:
  assumes "P \<in> set all_points"
  shows "\<exists>S \<in> set all_points. double P = Inr S"
proof -
  from double_closed_enum assms
  have "case double P of Inr S \<Rightarrow> S \<in> set all_points | Inl e \<Rightarrow> False"
    unfolding list_all_iff by blast
  then show ?thesis by (cases "double P") auto
qed

lemma inverse_closed:
  assumes "P \<in> set all_points"
  shows "\<exists>S \<in> set all_points. inverse_pt P = Inr S"
proof -
  from inverse_closed_enum assms
  have "case inverse_pt P of Inr S \<Rightarrow> S \<in> set all_points | Inl e \<Rightarrow> False"
    unfolding list_all_iff by blast
  then show ?thesis by (cases "inverse_pt P") auto
qed

lemma power_loop_closed:
  "out \<in> set all_points \<Longrightarrow> base \<in> set all_points \<Longrightarrow>
     \<exists>S \<in> set all_points. power_loop out base tmp = Inr S"
proof (induction out base tmp rule: power_loop.induct)
  case (1 out base tmp)
  show ?case
  proof (cases "tmp > 0")
    case False
    with "1.prems" show ?thesis by (simp add: power_loop.simps)
  next
    case True
    obtain out' where o: "(if tmp AND 1 \<noteq> 0 then add out base else Inr out) = Inr out'"
      and o_in: "out' \<in> set all_points"
      using add_closed [OF "1.prems"] "1.prems"(1) by (cases "tmp AND 1 \<noteq> 0") auto
    obtain base' where b: "double base = Inr base'" and b_in: "base' \<in> set all_points"
      using double_closed [OF "1.prems"(2)] by auto
    from "1.IH" [OF True o b o_in b_in]
    obtain S where "S \<in> set all_points" "power_loop out' base' (tmp div 2) = Inr S"
      by auto
    with True o b show ?thesis
      by (subst power_loop.simps) auto
  qed
qed

lemma identity_eq: "identity = Inr (CP (FE 1) (FE 0))"
  by code_simp

lemma identity_in: "CP (FE 1) (FE 0) \<in> set all_points"
  by (simp add: all_points_def)

lemma power_closed:
  assumes "P \<in> set all_points" "0 \<le> n"
  shows "\<exists>S \<in> set all_points. power_pt P n = Inr S"
proof -
  from assms(1) have "is_circle_point P" by (rule all_points_circle)
  then have init: "CirclePoint_init (pt_x P) (pt_y P) = Inr P"
    by (simp add: is_circle_point_def)
  from power_loop_closed [OF identity_in assms(1)]
  obtain S where "S \<in> set all_points" "power_loop (CP (FE 1) (FE 0)) P n = Inr S"
    by auto
  with assms(2) init show ?thesis
    by (simp add: power_pt_def identity_eq)
qed

text \<open>
  Claim C8. For every circle point \<open>P\<close> (coordinates reduced, \<open>x\<^sup>2 + y\<^sup>2 = 1\<close>), the
  squaring map \<open>P.double()\<close> returns a point, and it is the point \<open>P.add(P)\<close> returns.
\<close>

theorem double_is_self_addition:
  "is_circle_point P \<Longrightarrow> \<exists>S. double P = Inr S \<and> add P P = Inr S"
proof -
  assume h: "is_circle_point P"
  then have p: "P \<in> set all_points" by (rule in_all_points)
  with double_eq_add_enum have "double P = add P P"
    unfolding list_all_iff by blast
  with double_closed [OF p] show ?thesis by auto
qed

theorem double_is_self_addition_witness:
  "is_circle_point (CP (FE 13) (FE 7)) \<and>
   double (CP (FE 13) (FE 7)) = Inr (CP (FE 27) (FE 27)) \<and>
   add (CP (FE 13) (FE 7)) (CP (FE 13) (FE 7)) = Inr (CP (FE 27) (FE 27))"
proof -
  have h: "is_circle_point (CP (FE 13) (FE 7))" by code_simp
  have d: "double (CP (FE 13) (FE 7)) = Inr (CP (FE 27) (FE 27))" by code_simp
  from double_is_self_addition [OF h] d h show ?thesis by auto
qed

text \<open>
  Claim C9. For circle points \<open>P\<close> and \<open>R\<close>, the calls \<open>P.add(R)\<close>, \<open>P.double()\<close>,
  \<open>P.inverse()\<close> and \<open>P.power(n)\<close> for every \<open>n \<ge> 0\<close> return a circle point: the check
  in the constructor never raises inside a group operation.
\<close>

theorem group_operations_stay_on_circle:
  assumes "is_circle_point P" and "is_circle_point R"
  shows "(\<exists>S. add P R = Inr S \<and> is_circle_point S) \<and>
         (\<exists>S. double P = Inr S \<and> is_circle_point S) \<and>
         (\<exists>S. inverse_pt P = Inr S \<and> is_circle_point S) \<and>
         (\<forall>n. 0 \<le> n \<longrightarrow> (\<exists>S. power_pt P n = Inr S \<and> is_circle_point S))"
proof -
  from assms have p: "P \<in> set all_points" and r: "R \<in> set all_points"
    by (simp_all add: in_all_points)
  have a: "\<exists>S. add P R = Inr S \<and> is_circle_point S"
    using add_closed [OF p r] all_points_circle by blast
  have d: "\<exists>S. double P = Inr S \<and> is_circle_point S"
    using double_closed [OF p] all_points_circle by blast
  have i: "\<exists>S. inverse_pt P = Inr S \<and> is_circle_point S"
    using inverse_closed [OF p] all_points_circle by blast
  have w: "\<exists>S. power_pt P n = Inr S \<and> is_circle_point S" if "0 \<le> n" for n
    using power_closed [OF p that] all_points_circle by blast
  from a d i w show ?thesis by blast
qed

theorem group_operations_stay_on_circle_witness:
  "is_circle_point (CP (FE 13) (FE 7)) \<and> is_circle_point (CP (FE 30) (FE 0)) \<and>
   (\<exists>S. add (CP (FE 13) (FE 7)) (CP (FE 30) (FE 0)) = Inr S \<and> is_circle_point S) \<and>
   (\<exists>S. double (CP (FE 13) (FE 7)) = Inr S \<and> is_circle_point S) \<and>
   (\<exists>S. inverse_pt (CP (FE 13) (FE 7)) = Inr S \<and> is_circle_point S) \<and>
   (\<exists>S. power_pt (CP (FE 13) (FE 7)) 31 = Inr S \<and> is_circle_point S)"
proof -
  have p: "is_circle_point (CP (FE 13) (FE 7))" by code_simp
  have r: "is_circle_point (CP (FE 30) (FE 0))" by code_simp
  from group_operations_stay_on_circle [OF p r] p r show ?thesis by simp
qed

section \<open>Subgroups\<close>

lemma subgroup_check_0:
  "case get_nth_generator 0 of Inl e \<Rightarrow> False | Inr g \<Rightarrow>
     (case generate_subgroup 0 of Inl e \<Rightarrow> False | Inr G \<Rightarrow>
        length G = 2 ^ 0 \<and> distinct G \<and> list_all is_circle_point G \<and> identity = Inr (G ! 0) \<and>
        list_all (\<lambda>P. list_all (\<lambda>R. case add P R of Inr S \<Rightarrow> S \<in> set G | Inl e \<Rightarrow> False) G) G \<and>
        list_all (\<lambda>i. power_pt g (int i) = Inr (G ! i)) [0..<2 ^ 0])"
  by code_simp

lemma subgroup_check_1:
  "case get_nth_generator 1 of Inl e \<Rightarrow> False | Inr g \<Rightarrow>
     (case generate_subgroup 1 of Inl e \<Rightarrow> False | Inr G \<Rightarrow>
        length G = 2 ^ 1 \<and> distinct G \<and> list_all is_circle_point G \<and> identity = Inr (G ! 0) \<and>
        list_all (\<lambda>P. list_all (\<lambda>R. case add P R of Inr S \<Rightarrow> S \<in> set G | Inl e \<Rightarrow> False) G) G \<and>
        list_all (\<lambda>i. power_pt g (int i) = Inr (G ! i)) [0..<2 ^ 1])"
  by code_simp

lemma subgroup_check_2:
  "case get_nth_generator 2 of Inl e \<Rightarrow> False | Inr g \<Rightarrow>
     (case generate_subgroup 2 of Inl e \<Rightarrow> False | Inr G \<Rightarrow>
        length G = 2 ^ 2 \<and> distinct G \<and> list_all is_circle_point G \<and> identity = Inr (G ! 0) \<and>
        list_all (\<lambda>P. list_all (\<lambda>R. case add P R of Inr S \<Rightarrow> S \<in> set G | Inl e \<Rightarrow> False) G) G \<and>
        list_all (\<lambda>i. power_pt g (int i) = Inr (G ! i)) [0..<2 ^ 2])"
  by code_simp

lemma subgroup_check_3:
  "case get_nth_generator 3 of Inl e \<Rightarrow> False | Inr g \<Rightarrow>
     (case generate_subgroup 3 of Inl e \<Rightarrow> False | Inr G \<Rightarrow>
        length G = 2 ^ 3 \<and> distinct G \<and> list_all is_circle_point G \<and> identity = Inr (G ! 0) \<and>
        list_all (\<lambda>P. list_all (\<lambda>R. case add P R of Inr S \<Rightarrow> S \<in> set G | Inl e \<Rightarrow> False) G) G \<and>
        list_all (\<lambda>i. power_pt g (int i) = Inr (G ! i)) [0..<2 ^ 3])"
  by code_simp

lemma subgroup_check_4:
  "case get_nth_generator 4 of Inl e \<Rightarrow> False | Inr g \<Rightarrow>
     (case generate_subgroup 4 of Inl e \<Rightarrow> False | Inr G \<Rightarrow>
        length G = 2 ^ 4 \<and> distinct G \<and> list_all is_circle_point G \<and> identity = Inr (G ! 0) \<and>
        list_all (\<lambda>P. list_all (\<lambda>R. case add P R of Inr S \<Rightarrow> S \<in> set G | Inl e \<Rightarrow> False) G) G \<and>
        list_all (\<lambda>i. power_pt g (int i) = Inr (G ! i)) [0..<2 ^ 4])"
  by code_simp

text \<open>For the whole group the closure under the group law is the addition table above.\<close>

lemma subgroup_check_5_raw:
  "case get_nth_generator 5 of Inl e \<Rightarrow> False | Inr g \<Rightarrow>
     (case generate_subgroup 5 of Inl e \<Rightarrow> False | Inr G \<Rightarrow>
        length G = 2 ^ 5 \<and> distinct G \<and> list_all is_circle_point G \<and> identity = Inr (G ! 0) \<and>
        G = all_points \<and>
        list_all (\<lambda>i. power_pt g (int i) = Inr (G ! i)) [0..<2 ^ 5])"
  by code_simp

lemma subgroup_props:
  assumes "get_nth_generator k = Inr g" "generate_subgroup k = Inr G"
    and "length G = 2 ^ m" "distinct G" "list_all is_circle_point G" "identity = Inr (G ! 0)"
    and cl: "list_all (\<lambda>P. list_all (\<lambda>R. case add P R of Inr S \<Rightarrow> S \<in> set G | Inl e \<Rightarrow> False) G) G"
    and pw: "list_all (\<lambda>i. power_pt g (int i) = Inr (G ! i)) [0..<2 ^ m]"
    and "nat k = m"
  shows "\<exists>g G. get_nth_generator k = Inr g \<and> generate_subgroup k = Inr G \<and>
           length G = 2 ^ nat k \<and> distinct G \<and> (\<forall>P\<in>set G. is_circle_point P) \<and>
           identity = Inr (G ! 0) \<and>
           (\<forall>P\<in>set G. \<forall>R\<in>set G. \<exists>S\<in>set G. add P R = Inr S) \<and>
           (\<forall>i<length G. power_pt g (int i) = Inr (G ! i))"
proof -
  have c: "\<exists>S\<in>set G. add P R = Inr S" if "P \<in> set G" "R \<in> set G" for P R
  proof -
    from cl that have "case add P R of Inr S \<Rightarrow> S \<in> set G | Inl e \<Rightarrow> False"
      unfolding list_all_iff by blast
    then show ?thesis by (cases "add P R") auto
  qed
  have p: "\<forall>i<length G. power_pt g (int i) = Inr (G ! i)"
    using pw assms(3) by (simp add: list_all_iff)
  from assms(1-6,9) c p show ?thesis
    by (auto simp: list_all_iff)
qed

lemma subgroup_check_5:
  "case get_nth_generator 5 of Inl e \<Rightarrow> False | Inr g \<Rightarrow>
     (case generate_subgroup 5 of Inl e \<Rightarrow> False | Inr G \<Rightarrow>
        length G = 2 ^ 5 \<and> distinct G \<and> list_all is_circle_point G \<and> identity = Inr (G ! 0) \<and>
        list_all (\<lambda>P. list_all (\<lambda>R. case add P R of Inr S \<Rightarrow> S \<in> set G | Inl e \<Rightarrow> False) G) G \<and>
        list_all (\<lambda>i. power_pt g (int i) = Inr (G ! i)) [0..<2 ^ 5])"
proof (cases "get_nth_generator 5")
  case (Inl e)
  with subgroup_check_5_raw show ?thesis by simp
next
  case g: (Inr g)
  show ?thesis
  proof (cases "generate_subgroup 5")
    case (Inl e)
    with subgroup_check_5_raw g show ?thesis by simp
  next
    case (Inr G)
    with subgroup_check_5_raw g have "G = all_points" by simp
    with subgroup_check_5_raw g Inr add_closed_enum show ?thesis by simp
  qed
qed

lemma subgroup_case:
  assumes chk: "case get_nth_generator k of Inl e \<Rightarrow> False | Inr g \<Rightarrow>
     (case generate_subgroup k of Inl e \<Rightarrow> False | Inr G \<Rightarrow>
        length G = 2 ^ m \<and> distinct G \<and> list_all is_circle_point G \<and> identity = Inr (G ! 0) \<and>
        list_all (\<lambda>P. list_all (\<lambda>R. case add P R of Inr S \<Rightarrow> S \<in> set G | Inl e \<Rightarrow> False) G) G \<and>
        list_all (\<lambda>i. power_pt g (int i) = Inr (G ! i)) [0..<2 ^ m])"
    and m: "nat k = m"
  shows "\<exists>g G. get_nth_generator k = Inr g \<and> generate_subgroup k = Inr G \<and>
           length G = 2 ^ nat k \<and> distinct G \<and> (\<forall>P\<in>set G. is_circle_point P) \<and>
           identity = Inr (G ! 0) \<and>
           (\<forall>P\<in>set G. \<forall>R\<in>set G. \<exists>S\<in>set G. add P R = Inr S) \<and>
           (\<forall>i<length G. power_pt g (int i) = Inr (G ! i))"
proof -
  from chk obtain g where g: "get_nth_generator k = Inr g"
    by (cases "get_nth_generator k") auto
  with chk obtain G where G: "generate_subgroup k = Inr G"
    by (cases "generate_subgroup k") auto
  from chk g G have "length G = 2 ^ m" "distinct G" "list_all is_circle_point G"
    "identity = Inr (G ! 0)"
    "list_all (\<lambda>P. list_all (\<lambda>R. case add P R of Inr S \<Rightarrow> S \<in> set G | Inl e \<Rightarrow> False) G) G"
    "list_all (\<lambda>i. power_pt g (int i) = Inr (G ! i)) [0..<2 ^ m]"
    by simp_all
  from subgroup_props [OF g G this m] show ?thesis .
qed

lemma pow2_divides:
  assumes "0 \<le> k" "(MOD + 1) mod 2 ^ nat k = 0"
  shows "k = 0 \<or> k = 1 \<or> k = 2 \<or> k = 3 \<or> k = 4 \<or> k = 5"
proof -
  from assms(2) have m: "(32::int) mod 2 ^ nat k = 0" by (simp add: MOD_def)
  have "nat k \<le> 5"
  proof (rule ccontr)
    assume "\<not> nat k \<le> 5"
    then have "6 \<le> nat k" by simp
    then have "(2::int) ^ 6 \<le> 2 ^ nat k" by (intro power_increasing) simp_all
    then have "(32::int) < 2 ^ nat k" by simp
    then have "(32::int) mod 2 ^ nat k = 32" by simp
    with m show False by simp
  qed
  with assms(1) show ?thesis by presburger
qed

text \<open>
  Claim C7. For every \<open>k \<ge> 0\<close> with \<open>2 ^ k\<close> dividing \<open>MOD + 1\<close>, \<open>generate_subgroup(k)\<close>
  returns \<open>2 ^ k\<close> pairwise distinct circle points, closed under the group law, with the
  identity at index \<open>0\<close> and \<open>g.power(i)\<close> at every index \<open>i\<close>, for
  \<open>g = get_nth_generator(k)\<close>.
\<close>

theorem generate_subgroup_is_cyclic_subgroup:
  assumes "0 \<le> k" and "(MOD + 1) mod 2 ^ nat k = 0"
  shows "\<exists>g G. get_nth_generator k = Inr g \<and> generate_subgroup k = Inr G \<and>
           length G = 2 ^ nat k \<and> distinct G \<and> (\<forall>P\<in>set G. is_circle_point P) \<and>
           identity = Inr (G ! 0) \<and>
           (\<forall>P\<in>set G. \<forall>R\<in>set G. \<exists>S\<in>set G. add P R = Inr S) \<and>
           (\<forall>i<length G. power_pt g (int i) = Inr (G ! i))"
proof -
  from pow2_divides [OF assms]
  consider "k = 0" | "k = 1" | "k = 2" | "k = 3" | "k = 4" | "k = 5" by blast
  then show ?thesis
  proof cases
    case 1
    show ?thesis unfolding 1 by (rule subgroup_case [OF subgroup_check_0]) simp
  next
    case 2
    show ?thesis unfolding 2 by (rule subgroup_case [OF subgroup_check_1]) simp
  next
    case 3
    show ?thesis unfolding 3 by (rule subgroup_case [OF subgroup_check_2]) simp
  next
    case 4
    show ?thesis unfolding 4 by (rule subgroup_case [OF subgroup_check_3]) simp
  next
    case 5
    show ?thesis unfolding 5 by (rule subgroup_case [OF subgroup_check_4]) simp
  next
    case 6
    show ?thesis unfolding 6 by (rule subgroup_case [OF subgroup_check_5]) simp
  qed
qed

theorem generate_subgroup_is_cyclic_subgroup_witness:
  "(0::int) \<le> 3 \<and> (MOD + 1) mod 2 ^ nat 3 = 0 \<and>
   get_nth_generator 3 = Inr (CP (FE 4) (FE 27)) \<and>
   generate_subgroup 3 =
     Inr [CP (FE 1) (FE 0), CP (FE 4) (FE 27), CP (FE 0) (FE 30), CP (FE 27) (FE 27),
          CP (FE 30) (FE 0), CP (FE 27) (FE 4), CP (FE 0) (FE 1), CP (FE 4) (FE 4)] \<and>
   (\<exists>g G. get_nth_generator 3 = Inr g \<and> generate_subgroup 3 = Inr G \<and>
           length G = 2 ^ nat 3 \<and> distinct G \<and> (\<forall>P\<in>set G. is_circle_point P) \<and>
           identity = Inr (G ! 0) \<and>
           (\<forall>P\<in>set G. \<forall>R\<in>set G. \<exists>S\<in>set G. add P R = Inr S) \<and>
           (\<forall>i<length G. power_pt g (int i) = Inr (G ! i)))"
proof -
  have k: "(0::int) \<le> 3" by simp
  have m: "(MOD + 1) mod 2 ^ nat 3 = 0" by (simp add: MOD_def)
  have g: "get_nth_generator 3 = Inr (CP (FE 4) (FE 27))" by code_simp
  have s: "generate_subgroup 3 =
     Inr [CP (FE 1) (FE 0), CP (FE 4) (FE 27), CP (FE 0) (FE 30), CP (FE 27) (FE 27),
          CP (FE 30) (FE 0), CP (FE 27) (FE 4), CP (FE 0) (FE 1), CP (FE 4) (FE 4)]"
    by code_simp
  from generate_subgroup_is_cyclic_subgroup [OF k m] k m g s show ?thesis
    by (intro conjI)
qed

section \<open>Twin-cosets and standard-position cosets\<close>

lemma twin_check_1:
  "case generate_subgroup 0 of Inl e \<Rightarrow> False | Inr G' \<Rightarrow>
     (case generate_subgroup 1 of Inl e \<Rightarrow> False | Inr G \<Rightarrow>
        list_all (\<lambda>Q. if power_pt Q (2 ^ 1) = Inr (CP (FE 30) (FE 0)) then
           (case generate_twin_coset Q G' of Inl e \<Rightarrow> False | Inr T \<Rightarrow>
              (case generate_standard_position_coset Q G of Inl e \<Rightarrow> False | Inr D \<Rightarrow>
                 list_all (\<lambda>P. P \<in> set D) T \<and> list_all (\<lambda>P. P \<in> set T) D \<and> True))
           else True) all_points)"
  by code_simp

lemma twin_check_2:
  "case generate_subgroup 1 of Inl e \<Rightarrow> False | Inr G' \<Rightarrow>
     (case generate_subgroup 2 of Inl e \<Rightarrow> False | Inr G \<Rightarrow>
        list_all (\<lambda>Q. if power_pt Q (2 ^ 2) = Inr (CP (FE 30) (FE 0)) then
           (case generate_twin_coset Q G' of Inl e \<Rightarrow> False | Inr T \<Rightarrow>
              (case generate_standard_position_coset Q G of Inl e \<Rightarrow> False | Inr D \<Rightarrow>
                 list_all (\<lambda>P. P \<in> set D) T \<and> list_all (\<lambda>P. P \<in> set T) D \<and> T \<noteq> D))
           else True) all_points)"
  by code_simp

lemma twin_check_3:
  "case generate_subgroup 2 of Inl e \<Rightarrow> False | Inr G' \<Rightarrow>
     (case generate_subgroup 3 of Inl e \<Rightarrow> False | Inr G \<Rightarrow>
        list_all (\<lambda>Q. if power_pt Q (2 ^ 3) = Inr (CP (FE 30) (FE 0)) then
           (case generate_twin_coset Q G' of Inl e \<Rightarrow> False | Inr T \<Rightarrow>
              (case generate_standard_position_coset Q G of Inl e \<Rightarrow> False | Inr D \<Rightarrow>
                 list_all (\<lambda>P. P \<in> set D) T \<and> list_all (\<lambda>P. P \<in> set T) D \<and> T \<noteq> D))
           else True) all_points)"
  by code_simp

lemma twin_check_4:
  "case generate_subgroup 3 of Inl e \<Rightarrow> False | Inr G' \<Rightarrow>
     (case generate_subgroup 4 of Inl e \<Rightarrow> False | Inr G \<Rightarrow>
        list_all (\<lambda>Q. if power_pt Q (2 ^ 4) = Inr (CP (FE 30) (FE 0)) then
           (case generate_twin_coset Q G' of Inl e \<Rightarrow> False | Inr T \<Rightarrow>
              (case generate_standard_position_coset Q G of Inl e \<Rightarrow> False | Inr D \<Rightarrow>
                 list_all (\<lambda>P. P \<in> set D) T \<and> list_all (\<lambda>P. P \<in> set T) D \<and> T \<noteq> D))
           else True) all_points)"
  by code_simp

lemma no_point_of_order_64:
  "list_all (\<lambda>Q. power_pt Q (2 ^ 5) \<noteq> Inr (CP (FE 30) (FE 0))) all_points"
  by code_simp

lemma twin_case:
  assumes chk: "case generate_subgroup n' of Inl e \<Rightarrow> False | Inr G' \<Rightarrow>
     (case generate_subgroup n of Inl e \<Rightarrow> False | Inr G \<Rightarrow>
        list_all (\<lambda>Q. if power_pt Q (2 ^ m) = Inr (CP (FE 30) (FE 0)) then
           (case generate_twin_coset Q G' of Inl e \<Rightarrow> False | Inr T \<Rightarrow>
              (case generate_standard_position_coset Q G of Inl e \<Rightarrow> False | Inr D \<Rightarrow>
                 list_all (\<lambda>P. P \<in> set D) T \<and> list_all (\<lambda>P. P \<in> set T) D \<and> B T D))
           else True) all_points)"
    and g': "generate_subgroup n' = Inr G'" and g: "generate_subgroup n = Inr G"
    and q: "Q \<in> set all_points" and o: "power_pt Q (2 ^ m) = Inr (CP (FE 30) (FE 0))"
  shows "\<exists>T D. generate_twin_coset Q G' = Inr T \<and> generate_standard_position_coset Q G = Inr D \<and>
           set T = set D \<and> B T D"
proof -
  from chk g' g q o
  have c: "case generate_twin_coset Q G' of Inl e \<Rightarrow> False | Inr T \<Rightarrow>
              (case generate_standard_position_coset Q G of Inl e \<Rightarrow> False | Inr D \<Rightarrow>
                 list_all (\<lambda>P. P \<in> set D) T \<and> list_all (\<lambda>P. P \<in> set T) D \<and> B T D)"
    by (auto simp: list_all_iff split: if_splits)
  then obtain T where T: "generate_twin_coset Q G' = Inr T"
    by (cases "generate_twin_coset Q G'") auto
  with c obtain D where D: "generate_standard_position_coset Q G = Inr D"
    by (cases "generate_standard_position_coset Q G") auto
  from c T D have "set T \<subseteq> set D" "set D \<subseteq> set T" "B T D"
    by (auto simp: list_all_iff)
  with T D show ?thesis by blast
qed

text \<open>
  Claim C5, amended. Let \<open>Q\<close> be a circle point of order \<open>2 ^ (n + 1)\<close>, that is
  \<open>Q.power(2 ^ n) = (MOD - 1, 0)\<close>, with \<open>n \<ge> 1\<close>. Then the twin-coset of \<open>Q\<close> and
  \<open>generate_subgroup(n - 1)\<close> and the standard-position coset of \<open>Q\<close> and
  \<open>generate_subgroup(n)\<close> have the same set of points; for \<open>n \<ge> 2\<close> the two lists differ.
\<close>

theorem twin_coset_is_standard_coset_as_set:
  assumes q: "is_circle_point Q" and n: "1 \<le> n"
    and g': "generate_subgroup (n - 1) = Inr G'" and g: "generate_subgroup n = Inr G"
    and o: "power_pt Q (2 ^ nat n) = Inr (CP (FE (MOD - 1)) (FE 0))"
  shows "\<exists>T D. generate_twin_coset Q G' = Inr T \<and> generate_standard_position_coset Q G = Inr D \<and>
           set T = set D \<and> (2 \<le> n \<longrightarrow> T \<noteq> D)"
proof -
  from q have qa: "Q \<in> set all_points" by (rule in_all_points)
  from subgroup_range [OF g] n
  consider "n = 1" | "n = 2" | "n = 3" | "n = 4" | "n = 5" by auto
  then show ?thesis
  proof cases
    case 1
    from o have "power_pt Q (2 ^ 1) = Inr (CP (FE 30) (FE 0))" by (simp add: 1 MOD_def)
    from twin_case [OF twin_check_1 _ _ qa this] g' g 1 show ?thesis by simp
  next
    case 2
    from o have "power_pt Q (2 ^ 2) = Inr (CP (FE 30) (FE 0))" by (simp add: 2 MOD_def)
    from twin_case [OF twin_check_2 _ _ qa this] g' g 2 show ?thesis by simp
  next
    case 3
    from o have "power_pt Q (2 ^ 3) = Inr (CP (FE 30) (FE 0))" by (simp add: 3 MOD_def)
    from twin_case [OF twin_check_3 _ _ qa this] g' g 3 show ?thesis by simp
  next
    case 4
    from o have "power_pt Q (2 ^ 4) = Inr (CP (FE 30) (FE 0))" by (simp add: 4 MOD_def)
    from twin_case [OF twin_check_4 _ _ qa this] g' g 4 show ?thesis by simp
  next
    case 5
    from o have "power_pt Q (2 ^ 5) = Inr (CP (FE 30) (FE 0))" by (simp add: 5 MOD_def)
    with no_point_of_order_64 qa show ?thesis by (auto simp: list_all_iff)
  qed
qed

theorem twin_coset_is_standard_coset_as_set_witness:
  "is_circle_point (CP (FE 13) (FE 7)) \<and> (1::int) \<le> 3 \<and>
   generate_subgroup (3 - 1) =
     Inr [CP (FE 1) (FE 0), CP (FE 0) (FE 30), CP (FE 30) (FE 0), CP (FE 0) (FE 1)] \<and>
   generate_subgroup 3 =
     Inr [CP (FE 1) (FE 0), CP (FE 4) (FE 27), CP (FE 0) (FE 30), CP (FE 27) (FE 27),
          CP (FE 30) (FE 0), CP (FE 27) (FE 4), CP (FE 0) (FE 1), CP (FE 4) (FE 4)] \<and>
   power_pt (CP (FE 13) (FE 7)) (2 ^ nat 3) = Inr (CP (FE (MOD - 1)) (FE 0)) \<and>
   (\<exists>T D. generate_twin_coset (CP (FE 13) (FE 7))
             [CP (FE 1) (FE 0), CP (FE 0) (FE 30), CP (FE 30) (FE 0), CP (FE 0) (FE 1)] = Inr T \<and>
          generate_standard_position_coset (CP (FE 13) (FE 7))
             [CP (FE 1) (FE 0), CP (FE 4) (FE 27), CP (FE 0) (FE 30), CP (FE 27) (FE 27),
              CP (FE 30) (FE 0), CP (FE 27) (FE 4), CP (FE 0) (FE 1), CP (FE 4) (FE 4)] = Inr D \<and>
          set T = set D \<and> T \<noteq> D)"
proof -
  let ?Q = "CP (FE 13) (FE 7)"
  let ?G' = "[CP (FE 1) (FE 0), CP (FE 0) (FE 30), CP (FE 30) (FE 0), CP (FE 0) (FE 1)]"
  let ?G = "[CP (FE 1) (FE 0), CP (FE 4) (FE 27), CP (FE 0) (FE 30), CP (FE 27) (FE 27),
             CP (FE 30) (FE 0), CP (FE 27) (FE 4), CP (FE 0) (FE 1), CP (FE 4) (FE 4)]"
  have q: "is_circle_point ?Q" by code_simp
  have n: "(1::int) \<le> 3" by simp
  have g': "generate_subgroup (3 - 1) = Inr ?G'" by code_simp
  have g: "generate_subgroup 3 = Inr ?G" by code_simp
  have o: "power_pt ?Q (2 ^ nat 3) = Inr (CP (FE (MOD - 1)) (FE 0))" by code_simp
  from twin_coset_is_standard_coset_as_set [OF q n g' g o]
  have "\<exists>T D. generate_twin_coset ?Q ?G' = Inr T \<and>
          generate_standard_position_coset ?Q ?G = Inr D \<and> set T = set D \<and> T \<noteq> D"
    by simp
  with q g' g o show ?thesis by simp
qed

text \<open>
  The claim as stated fails for a coset point of another order: for the identity and
  \<open>n = 1\<close> the twin-coset holds the identity twice, the standard-position coset holds
  the identity and \<open>(30, 0)\<close>.
\<close>

theorem twin_coset_of_identity_differs:
  "identity = Inr (CP (FE 1) (FE 0)) \<and>
   generate_subgroup (1 - 1) = Inr [CP (FE 1) (FE 0)] \<and>
   generate_subgroup 1 = Inr [CP (FE 1) (FE 0), CP (FE 30) (FE 0)] \<and>
   generate_twin_coset (CP (FE 1) (FE 0)) [CP (FE 1) (FE 0)]
     = Inr [CP (FE 1) (FE 0), CP (FE 1) (FE 0)] \<and>
   generate_standard_position_coset (CP (FE 1) (FE 0)) [CP (FE 1) (FE 0), CP (FE 30) (FE 0)]
     = Inr [CP (FE 1) (FE 0), CP (FE 30) (FE 0)] \<and>
   set [CP (FE 1) (FE 0), CP (FE 1) (FE 0)] \<noteq> set [CP (FE 1) (FE 0), CP (FE 30) (FE 0)]"
proof -
  have a: "identity = Inr (CP (FE 1) (FE 0))" by code_simp
  have b: "generate_subgroup (1 - 1) = Inr [CP (FE 1) (FE 0)]" by code_simp
  have c: "generate_subgroup 1 = Inr [CP (FE 1) (FE 0), CP (FE 30) (FE 0)]" by code_simp
  have d: "generate_twin_coset (CP (FE 1) (FE 0)) [CP (FE 1) (FE 0)]
     = Inr [CP (FE 1) (FE 0), CP (FE 1) (FE 0)]" by code_simp
  have e: "generate_standard_position_coset (CP (FE 1) (FE 0)) [CP (FE 1) (FE 0), CP (FE 30) (FE 0)]
     = Inr [CP (FE 1) (FE 0), CP (FE 30) (FE 0)]" by code_simp
  have f: "set [CP (FE 1) (FE 0), CP (FE 1) (FE 0)] \<noteq> set [CP (FE 1) (FE 0), CP (FE 30) (FE 0)]"
    by auto
  from a b c d e f show ?thesis by blast
qed

section \<open>Decomposition into twin-cosets\<close>

lemma subgroup_points:
  assumes g: "generate_subgroup k = Inr G"
  shows "length G = 2 ^ nat k \<and> set G \<subseteq> set all_points"
proof -
  have *: "length G = 2 ^ nat k \<and> set G \<subseteq> set all_points"
    if "\<exists>g G. get_nth_generator k = Inr g \<and> generate_subgroup k = Inr G \<and>
           length G = 2 ^ nat k \<and> distinct G \<and> (\<forall>P\<in>set G. is_circle_point P) \<and>
           identity = Inr (G ! 0) \<and>
           (\<forall>P\<in>set G. \<forall>R\<in>set G. \<exists>S\<in>set G. add P R = Inr S) \<and>
           (\<forall>i<length G. power_pt g (int i) = Inr (G ! i))"
    using that g by (auto dest: in_all_points)
  from subgroup_range [OF g]
  consider "k = 0" | "k = 1" | "k = 2" | "k = 3" | "k = 4" | "k = 5" by blast
  then show ?thesis
  proof cases
    case 1
    show ?thesis by (rule *, unfold 1, rule subgroup_case [OF subgroup_check_0]) simp
  next
    case 2
    show ?thesis by (rule *, unfold 2, rule subgroup_case [OF subgroup_check_1]) simp
  next
    case 3
    show ?thesis by (rule *, unfold 3, rule subgroup_case [OF subgroup_check_2]) simp
  next
    case 4
    show ?thesis by (rule *, unfold 4, rule subgroup_case [OF subgroup_check_3]) simp
  next
    case 5
    show ?thesis by (rule *, unfold 5, rule subgroup_case [OF subgroup_check_4]) simp
  next
    case 6
    show ?thesis by (rule *, unfold 6, rule subgroup_case [OF subgroup_check_5]) simp
  qed
qed

lemma map_add_closed:
  assumes "Q \<in> set all_points" "set G \<subseteq> set all_points"
  shows "\<exists>C. map_err (add Q) G = Inr C \<and> length C = length G"
proof -
  have "\<forall>i<length G. \<exists>S. add Q (G ! i) = Inr S"
    using assms add_closed by (metis nth_mem subsetD)
  then obtain f where f: "\<forall>i<length G. add Q (G ! i) = Inr (f i)" by metis
  then have "map_err (add Q) G = Inr (map f [0..<length G])"
    by (simp add: map_err_Inr_iff)
  then show ?thesis by auto
qed

lemma twin_coset_length:
  assumes "Q \<in> set all_points" "set G \<subseteq> set all_points"
  shows "\<exists>T. generate_twin_coset Q G = Inr T \<and> length T = 2 * length G"
proof -
  from inverse_closed [OF assms(1)] obtain Qi where
    qi: "inverse_pt Q = Inr Qi" "Qi \<in> set all_points" by blast
  from map_add_closed [OF assms] obtain C where c: "map_err (add Q) G = Inr C" "length C = length G"
    by blast
  from map_add_closed [OF qi(2) assms(2)] obtain C' where
    c': "map_err (add Qi) G = Inr C'" "length C' = length G" by blast
  from qi c c' show ?thesis by (simp add: generate_twin_coset_def)
qed

text \<open>
  With the global \<open>Q\<close> read as an argument, the routine does what the claim says of the
  explicit coset point: \<open>2 ^ (m - n)\<close> twin-cosets of size \<open>2 ^ n\<close>, the \<open>k\<close>-th built
  from \<open>Q.power(4 * k + 1)\<close> and \<open>generate_subgroup(n - 1)\<close>; a domain of another length
  than \<open>2 ^ m\<close> fails the \<open>assert\<close>.
\<close>

lemma decompose_structure:
  assumes q: "is_circle_point Q" and n: "1 \<le> n" "n \<le> m"
    and g: "generate_subgroup (n - 1) = Inr G'" and d: "int (length D) = 2 ^ nat m"
  shows "\<exists>Ts. decompose_to_twin_cosets Q D n m = Inr Ts \<and> length Ts = 2 ^ nat (m - n) \<and>
           (\<forall>k<length Ts. \<exists>Qk. power_pt Q (4 * int k + 1) = Inr Qk \<and>
              generate_twin_coset Qk G' = Inr (Ts ! k) \<and> length (Ts ! k) = 2 ^ nat n)"
proof -
  from q have qa: "Q \<in> set all_points" by (rule in_all_points)
  from subgroup_points [OF g] have lg: "length G' = 2 ^ nat (n - 1)"
    and sg: "set G' \<subseteq> set all_points" by simp_all
  from n have m0: "0 \<le> m" and n0: "0 \<le> n" by simp_all
  have sm: "shl1 m = Inr (2 ^ nat m)" and sn: "shl1 n = Inr (2 ^ nat n)"
    using m0 n0 by (simp_all add: shl1_def)
  have "nat m = nat (m - n) + nat n" using n by simp
  then have "(2::int) ^ nat m = 2 ^ nat (m - n) * 2 ^ nat n"
    by (simp add: power_add)
  then have dv: "(2::int) ^ nat m div 2 ^ nat n = 2 ^ nat (m - n)" by simp
  let ?ks = "[0..(2::int) ^ nat (m - n) - 1]"
  let ?f = "\<lambda>k. case power_pt Q (4 * k + 1) of Inl e \<Rightarrow> Inl e
                   | Inr Q_k \<Rightarrow> generate_twin_coset Q_k G'"
  have lk: "length ?ks = 2 ^ nat (m - n)" by simp
  have nk: "?ks ! i = int i" if "i < 2 ^ nat (m - n)" for i
  proof -
    have "int i < 2 ^ nat (m - n)" using that by (metis of_nat_less_iff of_nat_numeral of_nat_power)
    then show ?thesis by (simp add: nth_upto)
  qed
  have el: "\<exists>T. ?f (int i) = Inr T \<and>
              (\<exists>Qk. power_pt Q (4 * int i + 1) = Inr Qk \<and> generate_twin_coset Qk G' = Inr T \<and>
                 length T = 2 ^ nat n)" for i
  proof -
    from power_closed [OF qa, of "4 * int i + 1"] obtain Qk where
      qk: "power_pt Q (4 * int i + 1) = Inr Qk" "Qk \<in> set all_points" by auto
    from twin_coset_length [OF qk(2) sg] obtain T where
      t: "generate_twin_coset Qk G' = Inr T" "length T = 2 * length G'" by blast
    have "nat n = Suc (nat (n - 1))" using n(1) by simp
    then have "(2::nat) ^ nat n = 2 * 2 ^ nat (n - 1)" by simp
    with t lg have "length T = 2 ^ nat n" by simp
    with qk t show ?thesis by auto
  qed
  then obtain h where h: "\<forall>i. ?f (int i) = Inr (h i) \<and>
              (\<exists>Qk. power_pt Q (4 * int i + 1) = Inr Qk \<and> generate_twin_coset Qk G' = Inr (h i) \<and>
                 length (h i) = 2 ^ nat n)"
    by metis
  let ?Ts = "map h [0..<2 ^ nat (m - n)]"
  have "map_err ?f ?ks = Inr ?Ts"
  proof -
    have l: "length ?Ts = length ?ks" by (simp only: lk length_map length_upt diff_zero)
    have "?f (?ks ! i) = Inr (?Ts ! i)" if "i < length ?ks" for i
    proof -
      from that have i: "i < 2 ^ nat (m - n)" by (simp only: lk)
      then have "?Ts ! i = h i" by simp
      with nk [OF i] h show ?thesis by simp
    qed
    with l show ?thesis by (simp only: map_err_Inr_iff) blast
  qed
  then have "decompose_to_twin_cosets Q D n m = Inr ?Ts"
    using d by (simp add: decompose_to_twin_cosets_def sm sn g dv)
  moreover have "length ?Ts = 2 ^ nat (m - n)" by simp
  moreover have "\<forall>k<length ?Ts. \<exists>Qk. power_pt Q (4 * int k + 1) = Inr Qk \<and>
              generate_twin_coset Qk G' = Inr (?Ts ! k) \<and> length (?Ts ! k) = 2 ^ nat n"
    using h by simp
  ultimately show ?thesis by blast
qed

lemma decompose_assert:
  assumes "0 \<le> m" "int (length D) \<noteq> 2 ^ nat m"
  shows "decompose_to_twin_cosets Q D n m = Inl AssertionError"
  using assms by (simp add: decompose_to_twin_cosets_def shl1_def)

text \<open>
  Claim C4, at an input it fails on. The notebook's global \<open>Q\<close> is \<open>(13, 7)\<close> when
  \<open>decompose_to_twin_cosets\<close> is defined. Called with the standard-position coset \<open>D\<close>
  of the point \<open>(2, 11)\<close> and \<open>generate_subgroup(3)\<close>, and \<open>n = 2\<close>, \<open>m = 3\<close>, it returns
  the twin-cosets of the powers of the global \<open>(13, 7)\<close>, none of whose points
  occurs in \<open>D\<close>; the twin-coset of \<open>(2, 11)\<close>, the point \<open>D\<close> was built from, is another
  list.
\<close>

theorem decompose_reads_global_coset_point:
  "generate_subgroup 3 =
     Inr [CP (FE 1) (FE 0), CP (FE 4) (FE 27), CP (FE 0) (FE 30), CP (FE 27) (FE 27),
          CP (FE 30) (FE 0), CP (FE 27) (FE 4), CP (FE 0) (FE 1), CP (FE 4) (FE 4)] \<and>
   generate_standard_position_coset (CP (FE 2) (FE 11))
     [CP (FE 1) (FE 0), CP (FE 4) (FE 27), CP (FE 0) (FE 30), CP (FE 27) (FE 27),
      CP (FE 30) (FE 0), CP (FE 27) (FE 4), CP (FE 0) (FE 1), CP (FE 4) (FE 4)] =
     Inr [CP (FE 2) (FE 11), CP (FE 21) (FE 5), CP (FE 11) (FE 29), CP (FE 5) (FE 10),
          CP (FE 29) (FE 20), CP (FE 10) (FE 26), CP (FE 20) (FE 2), CP (FE 26) (FE 21)] \<and>
   decompose_to_twin_cosets (CP (FE 13) (FE 7))
     [CP (FE 2) (FE 11), CP (FE 21) (FE 5), CP (FE 11) (FE 29), CP (FE 5) (FE 10),
      CP (FE 29) (FE 20), CP (FE 10) (FE 26), CP (FE 20) (FE 2), CP (FE 26) (FE 21)] 2 3 =
     Inr [[CP (FE 13) (FE 7), CP (FE 18) (FE 24), CP (FE 13) (FE 24), CP (FE 18) (FE 7)],
          [CP (FE 24) (FE 13), CP (FE 7) (FE 18), CP (FE 24) (FE 18), CP (FE 7) (FE 13)]] \<and>
   set (concat [[CP (FE 13) (FE 7), CP (FE 18) (FE 24), CP (FE 13) (FE 24), CP (FE 18) (FE 7)],
          [CP (FE 24) (FE 13), CP (FE 7) (FE 18), CP (FE 24) (FE 18), CP (FE 7) (FE 13)]]) \<inter>
     set [CP (FE 2) (FE 11), CP (FE 21) (FE 5), CP (FE 11) (FE 29), CP (FE 5) (FE 10),
          CP (FE 29) (FE 20), CP (FE 10) (FE 26), CP (FE 20) (FE 2), CP (FE 26) (FE 21)] = {} \<and>
   power_pt (CP (FE 2) (FE 11)) (4 * 0 + 1) = Inr (CP (FE 2) (FE 11)) \<and>
   generate_subgroup (2 - 1) = Inr [CP (FE 1) (FE 0), CP (FE 30) (FE 0)] \<and>
   generate_twin_coset (CP (FE 2) (FE 11)) [CP (FE 1) (FE 0), CP (FE 30) (FE 0)] =
     Inr [CP (FE 2) (FE 11), CP (FE 29) (FE 20), CP (FE 2) (FE 20), CP (FE 29) (FE 11)]"
proof -
  let ?G = "[CP (FE 1) (FE 0), CP (FE 4) (FE 27), CP (FE 0) (FE 30), CP (FE 27) (FE 27),
             CP (FE 30) (FE 0), CP (FE 27) (FE 4), CP (FE 0) (FE 1), CP (FE 4) (FE 4)]"
  let ?D = "[CP (FE 2) (FE 11), CP (FE 21) (FE 5), CP (FE 11) (FE 29), CP (FE 5) (FE 10),
             CP (FE 29) (FE 20), CP (FE 10) (FE 26), CP (FE 20) (FE 2), CP (FE 26) (FE 21)]"
  have a: "generate_subgroup 3 = Inr ?G" by code_simp
  have b: "generate_standard_position_coset (CP (FE 2) (FE 11)) ?G = Inr ?D" by code_simp
  have c: "decompose_to_twin_cosets (CP (FE 13) (FE 7)) ?D 2 3 =
     Inr [[CP (FE 13) (FE 7), CP (FE 18) (FE 24), CP (FE 13) (FE 24), CP (FE 18) (FE 7)],
          [CP (FE 24) (FE 13), CP (FE 7) (FE 18), CP (FE 24) (FE 18), CP (FE 7) (FE 13)]]"
    by code_simp
  have d: "set (concat [[CP (FE 13) (FE 7), CP (FE 18) (FE 24), CP (FE 13) (FE 24), CP (FE 18) (FE 7)],
          [CP (FE 24) (FE 13), CP (FE 7) (FE 18), CP (FE 24) (FE 18), CP (FE 7) (FE 13)]]) \<inter>
        set ?D = {}" by simp
  have e: "power_pt (CP (FE 2) (FE 11)) (4 * 0 + 1) = Inr (CP (FE 2) (FE 11))" by code_simp
  have f: "generate_subgroup (2 - 1) = Inr [CP (FE 1) (FE 0), CP (FE 30) (FE 0)]" by code_simp
  have g: "generate_twin_coset (CP (FE 2) (FE 11)) [CP (FE 1) (FE 0), CP (FE 30) (FE 0)] =
     Inr [CP (FE 2) (FE 11), CP (FE 29) (FE 20), CP (FE 2) (FE 20), CP (FE 29) (FE 11)]"
    by code_simp
  from a b c d e f g show ?thesis by blast
qed

section \<open>The reference run\<close>

text \<open>
  Claim C2. With \<open>Q = CirclePoint(FieldElement(24), FieldElement(18))\<close> and the domain
  \<open>generate_standard_position_coset(Q, generate_subgroup(3))\<close>, the forward transform of
  \<open>[1,2,4,8,16,1,2,4]\<close> is exactly \<open>[28,16,16,27,20,12,28,27]\<close>, and the inverse
  transform of that vector over the same domain gives the evaluations back.
\<close>

theorem circle_fft_reference_example:
  "\<exists>Q G D.
     CirclePoint_init (FieldElement_init 24) (FieldElement_init 18) = Inr Q \<and>
     generate_subgroup 3 = Inr G \<and>
     generate_standard_position_coset Q G = Inr D \<and>
     circle_fft [1, 2, 4, 8, 16, 1, 2, 4] D = Some (Inr [28, 16, 16, 27, 20, 12, 28, 27]) \<and>
     circle_ifft [28, 16, 16, 27, 20, 12, 28, 27] D = Some (Inr [1, 2, 4, 8, 16, 1, 2, 4])"
proof -
  let ?Q = "CP (FE 24) (FE 18)"
  let ?G = "[CP (FE 1) (FE 0), CP (FE 4) (FE 27), CP (FE 0) (FE 30), CP (FE 27) (FE 27),
             CP (FE 30) (FE 0), CP (FE 27) (FE 4), CP (FE 0) (FE 1), CP (FE 4) (FE 4)]"
  let ?D = "[CP (FE 24) (FE 18), CP (FE 13) (FE 7), CP (FE 18) (FE 7), CP (FE 7) (FE 18),
             CP (FE 7) (FE 13), CP (FE 18) (FE 24), CP (FE 13) (FE 24), CP (FE 24) (FE 13)]"
  have q: "CirclePoint_init (FieldElement_init 24) (FieldElement_init 18) = Inr ?Q"
    by code_simp
  have g: "generate_subgroup 3 = Inr ?G"
    by code_simp
  have d: "generate_standard_position_coset ?Q ?G = Inr ?D"
    by code_simp
  have f: "circle_fft [1, 2, 4, 8, 16, 1, 2, 4] ?D = Some (Inr [28, 16, 16, 27, 20, 12, 28, 27])"
    by code_simp
  have i: "circle_ifft [28, 16, 16, 27, 20, 12, 28, 27] ?D = Some (Inr [1, 2, 4, 8, 16, 1, 2, 4])"
    by code_simp
  from q g d f i show ?thesis by blast
qed

end
